theory Spec2Isabelle
  imports Complex_Main
begin

section \<open>Values and errors\<close>

text \<open>
  The module \<open>time_series/link_utilities.py\<close> works on numpy arrays. Python exceptions are
  values of \<open>error\<close>; a computation that may raise returns \<open>error + 'a\<close>.
\<close>

datatype error = IndexError | ValueError

text \<open>
  A float64 array entry. Quotients of pixel counts are kept as exact rationals (the rounding
  of the float division is not modelled, and the float32 sums of zeros and ones are taken
  as the exact counts); the three special values are explicit, because \<open>np.divide\<close>
  produces them and comparisons treat them specially.
\<close>

datatype npfloat = NegInf | Fin rat | PosInf | NaN

text \<open>\<open>np.divide\<close> on two finite floats: division by zero warns and yields inf or nan.\<close>

definition np_divide :: "rat \<Rightarrow> rat \<Rightarrow> npfloat" where
  "np_divide a b =
     (if b = 0 then (if a = 0 then NaN else if 0 < a then PosInf else NegInf)
      else Fin (a / b))"

text \<open>The comparisons \<open>x < threshold\<close> and \<open>x >= threshold\<close>; both are False on nan.\<close>

fun np_less :: "npfloat \<Rightarrow> rat \<Rightarrow> bool" where
  "np_less NegInf t = True"
| "np_less (Fin q) t = (q < t)"
| "np_less PosInf t = False"
| "np_less NaN t = False"

fun np_ge :: "npfloat \<Rightarrow> rat \<Rightarrow> bool" where
  "np_ge NegInf t = False"
| "np_ge (Fin q) t = (t \<le> q)"
| "np_ge PosInf t = True"
| "np_ge NaN t = False"

text \<open>\<open>np.maximum\<close> of two entries propagates nan; \<open>np.max\<close> folds it over a non-empty axis.\<close>

fun np_maximum :: "npfloat \<Rightarrow> npfloat \<Rightarrow> npfloat" where
  "np_maximum NaN y = NaN"
| "np_maximum x NaN = NaN"
| "np_maximum PosInf y = PosInf"
| "np_maximum x PosInf = PosInf"
| "np_maximum NegInf y = y"
| "np_maximum x NegInf = x"
| "np_maximum (Fin a) (Fin b) = Fin (max a b)"

section \<open>Overlap engine: \<open>_compute_overlaps_masks\<close>\<close>

text \<open>
  A mask set is an array of shape \<open>[height, width, instances]\<close>. The record keeps the shape
  and the entries in row-major order, so entry \<open>[h, w, n]\<close> is
  \<open>vals ! ((h * width + w) * ninst + n)\<close> and pixel \<open>p = h * width + w\<close> of instance \<open>n\<close> is
  \<open>vals ! (p * ninst + n)\<close>.
\<close>

record mask_array =
  height :: nat
  width :: nat
  ninst :: nat
  vals :: "rat list"

definition well_shaped :: "mask_array \<Rightarrow> bool" where
  "well_shaped m = (length (vals m) = height m * width m * ninst m)"

text \<open>\<open>(x > .5).astype(np.float32)\<close> on one entry.\<close>

definition gt_half :: "rat \<Rightarrow> rat" where
  "gt_half v = (if 1 / 2 < v then 1 else 0)"

text \<open>\<open>np.reshape(masks > .5, (-1, masks.shape[-1])).astype(np.float32)\<close>: one row per pixel.\<close>

definition reshape_gt_half :: "mask_array \<Rightarrow> rat list list" where
  "reshape_gt_half m =
     map (\<lambda>p. map (\<lambda>n. gt_half (vals m ! (p * ninst m + n))) [0..<ninst m])
         [0..<height m * width m]"

text \<open>\<open>np.expand_dims(masks1[:,:,idx_m], axis=2)\<close>: the single instance \<open>idx_m\<close>.\<close>

definition expand_instance :: "mask_array \<Rightarrow> nat \<Rightarrow> mask_array" where
  "expand_instance m idx_m =
     \<lparr>height = height m, width = width m, ninst = 1,
      vals = map (\<lambda>p. vals m ! (p * ninst m + idx_m)) [0..<height m * width m]\<rparr>"

text \<open>
  \<open>np.dot(masks_f.T, maski_f).squeeze()\<close> for \<open>masks_f\<close> of shape \<open>(P2, n2)\<close> and \<open>maski_f\<close> of
  shape \<open>(P1, 1)\<close>: numpy raises ValueError when \<open>P2 \<noteq> P1\<close>.
\<close>

definition np_dot_T :: "nat \<Rightarrow> rat list list \<Rightarrow> rat list list \<Rightarrow> error + rat list" where
  "np_dot_T n2 masks_f maski_f =
     (if length masks_f \<noteq> length maski_f then Inl ValueError
      else Inr (map (\<lambda>j. sum_list (map (\<lambda>p. (masks_f ! p ! j) * (maski_f ! p ! 0))
                                         [0..<length masks_f]))
                    [0..<n2]))"

text \<open>\<open>np.sum(masks_f, 0)\<close> (one sum per column) and \<open>np.sum(maski_f)\<close> (all entries).\<close>

definition np_sum0 :: "nat \<Rightarrow> rat list list \<Rightarrow> rat list" where
  "np_sum0 n2 masks_f = map (\<lambda>j. sum_list (map (\<lambda>row. row ! j) masks_f)) [0..<n2]"

definition np_sum :: "rat list list \<Rightarrow> rat" where
  "np_sum maski_f = sum_list (map sum_list maski_f)"

text \<open>One pass of the loop body: the rows \<open>intersections[idx_m,:]\<close> and \<open>unions[idx_m,:]\<close>.\<close>

definition overlap_row :: "mask_array \<Rightarrow> mask_array \<Rightarrow> nat \<Rightarrow> error + (rat list \<times> rat list)" where
  "overlap_row masks1 masks2 idx_m =
     (let maski = expand_instance masks1 idx_m;
          masks_f = reshape_gt_half masks2;
          maski_f = reshape_gt_half maski
      in case np_dot_T (ninst masks2) masks_f maski_f of
           Inl e \<Rightarrow> Inl e
         | Inr intersection \<Rightarrow>
             Inr (intersection,
                  map (\<lambda>j. np_sum0 (ninst masks2) masks_f ! j + np_sum maski_f - intersection ! j)
                      [0..<ninst masks2]))"

text \<open>The loop \<open>for idx_m in range(0, n1)\<close>; an exception in one pass ends it.\<close>

fun overlap_rows :: "mask_array \<Rightarrow> mask_array \<Rightarrow> nat list \<Rightarrow> error + (rat list \<times> rat list) list" where
  "overlap_rows masks1 masks2 [] = Inr []"
| "overlap_rows masks1 masks2 (idx_m # rest) =
     (case overlap_row masks1 masks2 idx_m of
        Inl e \<Rightarrow> Inl e
      | Inr r \<Rightarrow> (case overlap_rows masks1 masks2 rest of
                    Inl e \<Rightarrow> Inl e
                  | Inr rs \<Rightarrow> Inr (r # rs)))"

text \<open>
  The result is a matrix given by its rows. An empty set of masks returns
  \<open>np.zeros((n1, n2))\<close> before anything else is looked at.
\<close>

definition compute_overlaps_masks :: "mask_array \<Rightarrow> mask_array \<Rightarrow> error + npfloat list list" where
  "compute_overlaps_masks masks1 masks2 =
     (if ninst masks1 = 0 \<or> ninst masks2 = 0
      then Inr (replicate (ninst masks1) (replicate (ninst masks2) (Fin 0)))
      else case overlap_rows masks1 masks2 [0..<ninst masks1] of
             Inl e \<Rightarrow> Inl e
           | Inr rs \<Rightarrow>
               Inr (map (\<lambda>(intersection, union).
                           map (\<lambda>j. np_divide (intersection ! j) (union ! j)) [0..<ninst masks2])
                        rs))"

section \<open>Assignment: from the weight matrix to the link vector\<close>

text \<open>
  \<open>scipy.optimize.linear_sum_assignment(weight_, maximize=True)\<close> is a library call. It is a
  parameter of the model: a function from the matrix (its rows) to either an exception or
  the pair \<open>(row_ind, col_ind)\<close>.
\<close>

type_synonym solver = "npfloat list list \<Rightarrow> error + (nat list \<times> nat list)"

text \<open>
  What the theorems below use of the library's contract: the two index arrays have the same
  length, no row and no column index is repeated, and every pair is a position of the matrix.
\<close>

definition is_assignment :: "npfloat list list \<Rightarrow> nat list \<Rightarrow> nat list \<Rightarrow> bool" where
  "is_assignment M row_ind col_ind =
     (length row_ind = length col_ind \<and> distinct row_ind \<and> distinct col_ind \<and>
      list_all (\<lambda>(r, c). r < length M \<and> c < length (M ! r)) (zip row_ind col_ind))"

definition solver_ok :: "solver \<Rightarrow> bool" where
  "solver_ok lsa =
     (\<forall>M row_ind col_ind. lsa M = Inr (row_ind, col_ind) \<longrightarrow> is_assignment M row_ind col_ind)"

text \<open>The constant \<open>threshold = 0.2\<close> of \<open>linking\<close>.\<close>

definition threshold :: rat where
  "threshold = 2 / 10"

text \<open>
  \<open>np.max(weight, axis=0)\<close>: the maximum of every column. Reducing an axis of length zero
  raises ValueError; a matrix without rows is the list \<open>[]\<close>.
\<close>

definition np_max_axis0 :: "npfloat list list \<Rightarrow> error + npfloat list" where
  "np_max_axis0 weight =
     (case weight of
        [] \<Rightarrow> Inl ValueError
      | row0 # rest \<Rightarrow>
          Inr (map (\<lambda>j. foldl np_maximum (row0 ! j) (map (\<lambda>row. row ! j) rest))
                   [0..<length row0]))"

text \<open>\<open>np.where(colmax < threshold)[0]\<close>: the indices of the columns to drop, ascending.\<close>

definition low_columns :: "rat \<Rightarrow> npfloat list \<Rightarrow> nat list" where
  "low_columns thr colmax = filter (\<lambda>j. np_less (colmax ! j) thr) [0..<length colmax]"

text \<open>\<open>np.delete(weight_, idx_col, 1)\<close>: every row without the columns of \<open>idx_col\<close>.\<close>

definition np_delete_cols :: "npfloat list list \<Rightarrow> nat list \<Rightarrow> npfloat list list" where
  "np_delete_cols weight idx_col =
     map (\<lambda>row. map (\<lambda>j. row ! j) (filter (\<lambda>j. j \<notin> set idx_col) [0..<length row])) weight"

text \<open>
  The loop \<open>for (r, c) in zip(row_ind, col_ind)\<close>. Reading \<open>weight_[r, c]\<close>, \<open>avail_col[c]\<close>
  or writing \<open>link[r]\<close> outside the array raises IndexError.
\<close>

fun assign_loop ::
  "rat \<Rightarrow> npfloat list list \<Rightarrow> nat list \<Rightarrow> (nat \<times> nat) list \<Rightarrow> int list \<Rightarrow> error + int list" where
  "assign_loop thr weight_f avail_col [] link = Inr link"
| "assign_loop thr weight_f avail_col ((r, c) # rest) link =
     (if r < length weight_f \<and> c < length (weight_f ! r)
      then (if np_ge (weight_f ! r ! c) thr
            then (if c < length avail_col \<and> r < length link
                  then assign_loop thr weight_f avail_col rest (link[r := int (avail_col ! c)])
                  else Inl IndexError)
            else assign_loop thr weight_f avail_col rest link)
      else Inl IndexError)"

text \<open>
  Lines 330 to 341 of \<open>linking\<close>, for the threshold \<open>thr\<close>, the leaf counts \<open>n0\<close> and \<open>n1\<close>
  and the weight matrix: the link vector starts as \<open>-np.ones((n0))\<close>. Its entries are
  floats with integral values; they are kept as integers.
\<close>

definition assign_links ::
  "solver \<Rightarrow> rat \<Rightarrow> nat \<Rightarrow> nat \<Rightarrow> npfloat list list \<Rightarrow> error + int list" where
  "assign_links lsa thr n0 n1 weight =
     (case np_max_axis0 weight of
        Inl e \<Rightarrow> Inl e
      | Inr colmax \<Rightarrow>
          (let idx_col = low_columns thr colmax;
               avail_col = filter (\<lambda>x. x \<notin> set idx_col) [0..<n1];
               weight_f = np_delete_cols weight idx_col
           in case lsa weight_f of
                Inl e \<Rightarrow> Inl e
              | Inr (row_ind, col_ind) \<Rightarrow>
                  assign_loop thr weight_f avail_col (zip row_ind col_ind)
                    (replicate n0 (- 1))))"

section \<open>The class \<open>PlantData\<close>\<close>

text \<open>
  One entry of the dictionary \<open>link_series\<close>: the arrays under the keys \<open>'new_leaf'\<close> and
  \<open>'unique_id'\<close>, and the series stored under the keys \<open>'leaf{j}'\<close>, kept as an association
  list on \<open>j\<close>. The outer dictionary is an association list on \<open>t\<close> for the key \<open>'t{t}'\<close>.
\<close>

record series_entry =
  new_leaf :: "int list"
  unique_id :: "int list"
  leaf :: "(int \<times> int list) list"

record plant_data =
  time :: "string list"
  masks :: "mask_array list"
  total_time :: nat
  max_nleaf :: nat
  init_nleaf :: nat
  num_leaves :: "nat list"
  num_emergence :: "int list"
  emerging_info :: "int list list"
  link_info :: "int list list"
  weights :: "npfloat list list list"
  available_leaves :: "int list list"
  time_compare :: "int list list"
  link_series :: "(nat \<times> series_entry) list"

text \<open>Assignment to a dictionary key: an existing key keeps its place, a new one is appended.\<close>

fun dict_set :: "'k \<Rightarrow> 'v \<Rightarrow> ('k \<times> 'v) list \<Rightarrow> ('k \<times> 'v) list" where
  "dict_set k v [] = [(k, v)]"
| "dict_set k v ((k', v') # rest) =
     (if k' = k then (k, v) # rest else (k', v') # dict_set k v rest)"

text \<open>
  \<open>a[i]\<close> for an integer \<open>i\<close>: positions \<open>-len(a)\<close> to \<open>-1\<close> are read from the end, anything
  beyond raises IndexError.
\<close>

definition np_get :: "'a list \<Rightarrow> int \<Rightarrow> error + 'a" where
  "np_get xs i =
     (if 0 \<le> i \<and> i < int (length xs) then Inr (xs ! nat i)
      else if i < 0 \<and> - int (length xs) \<le> i then Inr (xs ! nat (int (length xs) + i))
      else Inl IndexError)"

definition getinitleaf :: "plant_data \<Rightarrow> error + plant_data" where
  "getinitleaf s =
     (case masks s of
        [] \<Rightarrow> Inl IndexError
      | m0 # _ \<Rightarrow> Inr (s\<lparr>init_nleaf := ninst m0\<rparr>))"

definition getmaxleaf :: "plant_data \<Rightarrow> error + plant_data" where
  "getmaxleaf s =
     (let nl = num_leaves s @ map ninst (masks s)
      in if nl = [] then Inl ValueError
         else Inr (s\<lparr>num_leaves := nl, max_nleaf := foldl max (hd nl) (tl nl)\<rparr>))"

definition gettotaltime :: "plant_data \<Rightarrow> plant_data" where
  "gettotaltime s = s\<lparr>total_time := length (time s)\<rparr>"

text \<open>\<open>np.diff\<close> of a list of counts.\<close>

definition np_diff :: "nat list \<Rightarrow> int list" where
  "np_diff xs = map (\<lambda>i. int (xs ! Suc i) - int (xs ! i)) [0..<length xs - 1]"

text \<open>
  \<open>num_emergence[1:] = np.diff(num_leaves)\<close> assigns an array of the same length, or
  broadcasts an array of length one; any other length raises ValueError.
\<close>

definition getnumemergence :: "plant_data \<Rightarrow> error + plant_data" where
  "getnumemergence s =
     (let ones = replicate (total_time s) (int (init_nleaf s));
          d = np_diff (num_leaves s);
          k = total_time s - 1
      in if length d = k then Inr (s\<lparr>num_emergence := take 1 ones @ d\<rparr>)
         else if length d = 1 then Inr (s\<lparr>num_emergence := take 1 ones @ replicate k (hd d)\<rparr>)
         else Inl ValueError)"

text \<open>
  The comprehensions read \<open>num_leaves[i]\<close> for \<open>i < total_time\<close>; a shorter list raises
  IndexError.
\<close>

definition initialize_linking :: "plant_data \<Rightarrow> error + plant_data" where
  "initialize_linking s =
     (let T = total_time s; nl = num_leaves s
      in if T \<le> length nl
         then Inr (s\<lparr>emerging_info := replicate T [],
                     link_info := map (\<lambda>i. replicate (nl ! i) (- 1)) [0..<T - 1],
                     weights := map (\<lambda>i. replicate (nl ! i) (replicate (nl ! (i + 1)) NegInf))
                                    [0..<T - 1],
                     available_leaves := map (\<lambda>i. map int [0..<nl ! i]) [0..<T],
                     time_compare := map (\<lambda>i. replicate (nl ! i) (int i)) [0..<T]\<rparr>)
         else Inl IndexError)"

definition linking :: "solver \<Rightarrow> nat \<Rightarrow> plant_data \<Rightarrow> error + plant_data" where
  "linking lsa t0 s =
     (if t0 + 1 < length (masks s) \<and> t0 + 1 < length (available_leaves s)
      then (let masks0 = masks s ! t0;
                masks1 = masks s ! (t0 + 1);
                leaves0 = available_leaves s ! t0;
                leaves1 = available_leaves s ! (t0 + 1);
                n0 = length leaves0;
                n1 = length leaves1
            in case compute_overlaps_masks masks0 masks1 of
                 Inl e \<Rightarrow> Inl e
               | Inr weight \<Rightarrow>
                   (case assign_links lsa threshold n0 n1 weight of
                      Inl e \<Rightarrow> Inl e
                    | Inr link \<Rightarrow>
                        (if t0 < length (link_info s)
                         then Inr (s\<lparr>link_info := (link_info s)[t0 := link]\<rparr>)
                         else Inl IndexError)))
      else Inl IndexError)"

subsection \<open>\<open>get_series\<close>\<close>

text \<open>
  The first loop, \<open>for t in range(1, self.total_time)\<close>, with the running counter
  \<open>unique_id\<close> and the dictionary built so far.
\<close>

fun emergence_loop ::
  "plant_data \<Rightarrow> nat list \<Rightarrow> int \<Rightarrow> (nat \<times> series_entry) list \<Rightarrow>
   error + (nat \<times> series_entry) list" where
  "emergence_loop s [] uid ls = Inr ls"
| "emergence_loop s (t # ts) uid ls =
     (if t < length (available_leaves s) \<and> t - 1 < length (link_info s)
      then (let new_leaves = filter (\<lambda>i. i \<notin> set (link_info s ! (t - 1)))
                                    (available_leaves s ! t)
            in if new_leaves \<noteq> []
               then emergence_loop s ts (uid + int (length new_leaves))
                      (dict_set t
                         \<lparr>new_leaf = new_leaves,
                          unique_id = map (\<lambda>k. uid + int k) [0..<length new_leaves],
                          leaf = []\<rparr> ls)
               else emergence_loop s ts uid ls)
      else Inl IndexError)"

text \<open>
  The innermost loop, \<open>for t_ in range(t0 + 2, self.total_time)\<close>, on a series of length
  \<open>total_time\<close>; it breaks at the first negative entry.
\<close>

function series_loop :: "int list list \<Rightarrow> nat \<Rightarrow> nat \<Rightarrow> int list \<Rightarrow> error + int list" where
  "series_loop li T t_f ser =
     (if t_f < T
      then (let idx = ser ! (t_f - 1)
            in if idx < 0 then Inr ser
               else if t_f - 1 < length li \<and> nat idx < length (li ! (t_f - 1))
               then series_loop li T (Suc t_f) (ser[t_f := li ! (t_f - 1) ! nat idx])
               else Inl IndexError)
      else Inr ser)"
  by pat_completeness auto
termination
  by (relation "measure (\<lambda>(li, T, t_f, ser). T - t_f)") auto

text \<open>The body of \<open>for leaf in self.link_series[key_t]['new_leaf']\<close>: the series of one leaf.\<close>

definition leaf_series :: "plant_data \<Rightarrow> nat \<Rightarrow> int \<Rightarrow> error + int list" where
  "leaf_series s t0 lf =
     (let T = total_time s; ser = replicate T (- 1)
      in if t0 < T
         then (if t0 < T - 1
               then (if t0 < length (link_info s)
                     then (case np_get (link_info s ! t0) lf of
                             Inl e \<Rightarrow> Inl e
                           | Inr nxt \<Rightarrow>
                               series_loop (link_info s) T (t0 + 2) (ser[t0 := lf, t0 + 1 := nxt]))
                     else Inl IndexError)
               else Inr (ser[t0 := lf]))
         else Inl IndexError)"

fun leaves_loop ::
  "plant_data \<Rightarrow> nat \<Rightarrow> int list \<Rightarrow> (int \<times> int list) list \<Rightarrow> error + (int \<times> int list) list" where
  "leaves_loop s t0 [] d = Inr d"
| "leaves_loop s t0 (lf # rest) d =
     (case leaf_series s t0 lf of
        Inl e \<Rightarrow> Inl e
      | Inr ser \<Rightarrow> leaves_loop s t0 rest (dict_set lf ser d))"

text \<open>The loop \<open>for key_t in self.link_series\<close>.\<close>

fun keys_loop ::
  "plant_data \<Rightarrow> (nat \<times> series_entry) list \<Rightarrow> error + (nat \<times> series_entry) list" where
  "keys_loop s [] = Inr []"
| "keys_loop s ((t0, e) # rest) =
     (case leaves_loop s t0 (new_leaf e) (leaf e) of
        Inl x \<Rightarrow> Inl x
      | Inr d \<Rightarrow> (case keys_loop s rest of
                   Inl x \<Rightarrow> Inl x
                 | Inr rest' \<Rightarrow> Inr ((t0, e\<lparr>leaf := d\<rparr>) # rest')))"

definition get_series :: "plant_data \<Rightarrow> error + plant_data" where
  "get_series s =
     (case available_leaves s of
        [] \<Rightarrow> Inl IndexError
      | al0 # _ \<Rightarrow>
          (let ls0 = dict_set 0 \<lparr>new_leaf = al0, unique_id = al0, leaf = []\<rparr> (link_series s);
               uid = int (length al0)
           in case emergence_loop s [1..<total_time s] uid ls0 of
                Inl e \<Rightarrow> Inl e
              | Inr ls1 \<Rightarrow>
                  (case keys_loop s ls1 of
                     Inl e \<Rightarrow> Inl e
                   | Inr ls2 \<Rightarrow> Inr (s\<lparr>link_series := ls2\<rparr>))))"

subsection \<open>Construction and the driver\<close>

text \<open>The object after \<open>__init__\<close>, with the fields the model keeps.\<close>

definition new_plant_data :: plant_data where
  "new_plant_data =
     \<lparr>time = [], masks = [], total_time = 0, max_nleaf = 0, init_nleaf = 0, num_leaves = [],
      num_emergence = [], emerging_info = [], link_info = [], weights = [],
      available_leaves = [], time_compare = [], link_series = []\<rparr>"

text \<open>
  The object after \<open>Sorttime\<close> and \<open>load_results\<close>, which append one time stamp and one
  mask array per frame; reading the files is outside the model.
\<close>

definition loaded :: "string list \<Rightarrow> mask_array list \<Rightarrow> plant_data" where
  "loaded ts ms = new_plant_data\<lparr>time := ts, masks := ms\<rparr>"

text \<open>
  Modelled from the spec: the caller of the class is not part of the source files. Section
  4.3 has it run \<open>linking\<close> once per consecutive frame pair \<open>(t, t+1)\<close> for \<open>t\<close> in
  \<open>[0, T-1)\<close>, and section 2 has the trajectory builder run after the link table is
  complete. The counts are set first by the methods that compute them.
\<close>

fun link_pairs :: "solver \<Rightarrow> nat list \<Rightarrow> plant_data \<Rightarrow> error + plant_data" where
  "link_pairs lsa [] s = Inr s"
| "link_pairs lsa (t # ts) s =
     (case linking lsa t s of
        Inl e \<Rightarrow> Inl e
      | Inr s' \<Rightarrow> link_pairs lsa ts s')"

text \<open>
  Modelled from the spec: the run of \<open>linking\<close> over every \<open>t\<close> in \<open>[0, T-1)\<close>, in
  ascending order (section 4.3).
\<close>

definition link_all :: "solver \<Rightarrow> plant_data \<Rightarrow> error + plant_data" where
  "link_all lsa s = link_pairs lsa [0..<total_time s - 1] s"

text \<open>
  Modelled from the spec: the calls that set the counts the later methods read (the leaf
  count of frame 0, the leaf counts, the number of frames, the emergence counts) and
  \<open>initialize_linking\<close>; the caller is not part of the source files.
\<close>

definition prepare :: "plant_data \<Rightarrow> error + plant_data" where
  "prepare s =
     (case getinitleaf s of
        Inl e \<Rightarrow> Inl e
      | Inr s1 \<Rightarrow>
          (case getmaxleaf s1 of
             Inl e \<Rightarrow> Inl e
           | Inr s2 \<Rightarrow>
               (case getnumemergence (gettotaltime s2) of
                  Inl e \<Rightarrow> Inl e
                | Inr s3 \<Rightarrow> initialize_linking s3)))"

text \<open>
  Modelled from the spec: the whole run, the link table first and the trajectory builder
  after it (section 2, control flow).
\<close>

definition track :: "solver \<Rightarrow> plant_data \<Rightarrow> error + plant_data" where
  "track lsa s =
     (case prepare s of
        Inl e \<Rightarrow> Inl e
      | Inr s1 \<Rightarrow>
          (case link_all lsa s1 of
             Inl e \<Rightarrow> Inl e
           | Inr s2 \<Rightarrow> get_series s2))"

subsection \<open>Reading the result\<close>

text \<open>
  The identities of one entry of \<open>link_series\<close>: the k-th element of \<open>'unique_id'\<close> names the
  leaf that is the k-th element of \<open>'new_leaf'\<close>, whose series is stored under its key. A
  row is (identity, frame of emergence, leaf index at emergence, trajectory).
\<close>

definition identity_rows :: "nat \<times> series_entry \<Rightarrow> (int \<times> nat \<times> int \<times> int list) list" where
  "identity_rows = (\<lambda>(t0, e).
     concat (map (\<lambda>(u, lf). case map_of (leaf e) lf of
                                None \<Rightarrow> []
                              | Some ser \<Rightarrow> [(u, t0, lf, ser)])
                 (zip (unique_id e) (new_leaf e))))"

definition identity_table :: "plant_data \<Rightarrow> (int \<times> nat \<times> int \<times> int list) list" where
  "identity_table s = concat (map identity_rows (link_series s))"

definition trajectory_of :: "int \<times> nat \<times> int \<times> int list \<Rightarrow> int list" where
  "trajectory_of row = snd (snd (snd row))"

text \<open>The number of identities whose trajectory holds leaf index \<open>j\<close> at time \<open>t\<close>.\<close>

definition claimants :: "plant_data \<Rightarrow> nat \<Rightarrow> int \<Rightarrow> nat" where
  "claimants s t j = length (filter (\<lambda>row. trajectory_of row ! t = j) (identity_table s))"

section \<open>The trajectory builder in the words of the specification\<close>

text \<open>
  Section 4.4: at \<open>t = 0\<close> every leaf index is newly emerged; at a later frame \<open>t\<close> a leaf
  index \<open>j\<close> is newly emerged if no entry of \<open>LinkVector[t-1]\<close> equals \<open>j\<close>.
\<close>

definition spec_sentinel :: int where
  "spec_sentinel = - 1"

definition spec_newly_emerged :: "int list list \<Rightarrow> nat list \<Rightarrow> nat \<Rightarrow> int list" where
  "spec_newly_emerged link_vector nleaves t =
     (if t = 0 then map int [0..<nleaves ! 0]
      else filter (\<lambda>j. j \<notin> set (link_vector ! (t - 1))) (map int [0..<nleaves ! t]))"

text \<open>
  The trajectory of the identity introduced at frame \<open>t0\<close> on leaf index \<open>j0\<close>, at time \<open>t\<close>:
  the sentinel before \<open>t0\<close>, \<open>j0\<close> at \<open>t0\<close>, afterwards the entry of \<open>LinkVector[t-1]\<close> at the
  previous value, and the sentinel once the previous value is the sentinel.
\<close>

fun spec_trajectory_at :: "int list list \<Rightarrow> nat \<Rightarrow> int \<Rightarrow> nat \<Rightarrow> int" where
  "spec_trajectory_at link_vector t0 j0 0 = (if t0 = 0 then j0 else spec_sentinel)"
| "spec_trajectory_at link_vector t0 j0 (Suc t) =
     (if Suc t < t0 then spec_sentinel
      else if Suc t = t0 then j0
      else (let prev = spec_trajectory_at link_vector t0 j0 t
            in if prev = spec_sentinel then spec_sentinel
               else link_vector ! t ! nat prev))"

text \<open>
  Identities are handed out from a running counter that starts at 0: frame by frame, and
  within a frame in ascending order of the leaf index.
\<close>

definition spec_emergences :: "int list list \<Rightarrow> nat list \<Rightarrow> nat \<Rightarrow> (nat \<times> int) list" where
  "spec_emergences link_vector nleaves T =
     concat (map (\<lambda>t. map (\<lambda>j. (t, j)) (spec_newly_emerged link_vector nleaves t)) [0..<T])"

definition spec_table ::
  "int list list \<Rightarrow> nat list \<Rightarrow> nat \<Rightarrow> (int \<times> nat \<times> int \<times> int list) list" where
  "spec_table link_vector nleaves T =
     map (\<lambda>(k, (t0, j0)).
            (int k, t0, j0, map (spec_trajectory_at link_vector t0 j0) [0..<T]))
         (enumerate 0 (spec_emergences link_vector nleaves T))"

section \<open>Auxiliary notions and example inputs\<close>

text \<open>The mask set with every value replaced by the result of its comparison with 0.5.\<close>

definition binarize :: "mask_array \<Rightarrow> mask_array" where
  "binarize m = m\<lparr>vals := map gt_half (vals m)\<rparr>"

definition binary_valued :: "mask_array \<Rightarrow> bool" where
  "binary_valued m = list_all (\<lambda>v. v = 0 \<or> v = 1) (vals m)"

definition same_dims :: "mask_array \<Rightarrow> mask_array \<Rightarrow> bool" where
  "same_dims m1 m2 = (height m1 = height m2 \<and> width m1 = width m2)"

text \<open>
  A link vector from a frame of \<open>n0\<close> leaves to a frame of \<open>n1\<close> leaves: one entry per leaf,
  each the sentinel or a leaf index of the next frame. It is one-to-one when no index
  occurs twice.
\<close>

definition link_vector_ok :: "nat \<Rightarrow> nat \<Rightarrow> int list \<Rightarrow> bool" where
  "link_vector_ok n0 n1 link =
     (length link = n0 \<and> (\<forall>i<n0. link ! i = - 1 \<or> (0 \<le> link ! i \<and> link ! i < int n1)))"

definition link_vector_inj :: "int list \<Rightarrow> bool" where
  "link_vector_inj link =
     (\<forall>i<length link. \<forall>j<length link. i \<noteq> j \<and> link ! i \<noteq> - 1 \<longrightarrow> link ! i \<noteq> link ! j)"

text \<open>
  The state between \<open>initialize_linking\<close> and \<open>get_series\<close>: the leaf lists are the index
  ranges of the frames and there is one link vector per consecutive pair of frames.
\<close>

definition linked :: "plant_data \<Rightarrow> bool" where
  "linked s =
     (total_time s \<le> length (num_leaves s) \<and>
      available_leaves s = map (\<lambda>i. map int [0..<num_leaves s ! i]) [0..<total_time s] \<and>
      length (link_info s) = total_time s - 1 \<and>
      (\<forall>t<total_time s - 1.
         link_vector_ok (num_leaves s ! t) (num_leaves s ! Suc t) (link_info s ! t)))"

definition one_to_one :: "plant_data \<Rightarrow> bool" where
  "one_to_one s = (\<forall>t<total_time s - 1. link_vector_inj (link_info s ! t))"

text \<open>
  Notions for the proofs about \<open>get_series\<close>: the entries the first loop adds for the frames
  \<open>ts\<close> when the counter stands at \<open>u\<close>; an entry as the first loop leaves it; the entry
  after the second loop; and a row of the table for the identity \<open>k\<close>.
\<close>

fun emergence_entries :: "plant_data \<Rightarrow> nat list \<Rightarrow> nat \<Rightarrow> (nat \<times> series_entry) list" where
  "emergence_entries s [] u = []"
| "emergence_entries s (t # ts) u =
     (let new_leaves = spec_newly_emerged (link_info s) (num_leaves s) t
      in if new_leaves \<noteq> []
         then (t, \<lparr>new_leaf = new_leaves,
                   unique_id = map (\<lambda>k. int u + int k) [0..<length new_leaves],
                   leaf = []\<rparr>) # emergence_entries s ts (u + length new_leaves)
         else emergence_entries s ts u)"

definition entry_ok :: "plant_data \<Rightarrow> nat \<times> series_entry \<Rightarrow> bool" where
  "entry_ok s = (\<lambda>(t0, e). t0 < total_time s \<and> distinct (new_leaf e) \<and> leaf e = [] \<and>
     (\<forall>lf \<in> set (new_leaf e). 0 \<le> lf \<and> lf < int (num_leaves s ! t0)))"

definition with_series :: "plant_data \<Rightarrow> nat \<times> series_entry \<Rightarrow> nat \<times> series_entry" where
  "with_series s = (\<lambda>(t0, e).
     (t0, e\<lparr>leaf := map (\<lambda>lf. (lf, map (spec_trajectory_at (link_info s) t0 lf)
                                        [0..<total_time s])) (new_leaf e)\<rparr>))"

definition table_row :: "plant_data \<Rightarrow> nat \<times> nat \<times> int \<Rightarrow> int \<times> nat \<times> int \<times> int list" where
  "table_row s = (\<lambda>(k, (t0, j0)).
     (int k, t0, j0, map (spec_trajectory_at (link_info s) t0 j0) [0..<total_time s]))"

text \<open>One empty mask on an image of one pixel.\<close>

definition empty_mask :: mask_array where
  "empty_mask = \<lparr>height = 1, width = 1, ninst = 1, vals = [0]\<rparr>"

text \<open>
  One mask on an image of height 2 and width 1 with the values 7 and 0.3, and one mask on an
  image of height 1 and width 2 with the values 1 and 0.
\<close>

definition tall_mask :: mask_array where
  "tall_mask = \<lparr>height = 2, width = 1, ninst = 1, vals = [7, 3 / 10]\<rparr>"

definition wide_mask :: mask_array where
  "wide_mask = \<lparr>height = 1, width = 2, ninst = 1, vals = [1, 0]\<rparr>"

text \<open>
  A solver for the examples: it pairs row \<open>i\<close> with column \<open>i\<close>. On the matrices of the
  examples this is the assignment of maximum weight.
\<close>

definition diagonal_solver :: solver where
  "diagonal_solver M =
     (let idxs = filter (\<lambda>i. i < length (M ! i)) [0..<length M] in Inr (idxs, idxs))"

text \<open>
  A 2 x 2 weight matrix: similarity 0.2 between row 0 and column 0, and 0.1 between row 1
  and column 1.
\<close>

definition boundary_weight :: "npfloat list list" where
  "boundary_weight = [[Fin (2 / 10), Fin 0], [Fin 0, Fin (1 / 10)]]"

text \<open>
  Three frames on an image of one row and three pixels: one leaf on pixel 0; two leaves, on
  pixel 0 and on pixel 2; one leaf on pixel 2.
\<close>

definition frame_a :: mask_array where
  "frame_a = \<lparr>height = 1, width = 3, ninst = 1, vals = [1, 0, 0]\<rparr>"

definition frame_b :: mask_array where
  "frame_b = \<lparr>height = 1, width = 3, ninst = 2, vals = [1, 0, 0, 0, 0, 1]\<rparr>"

definition frame_c :: mask_array where
  "frame_c = \<lparr>height = 1, width = 3, ninst = 1, vals = [0, 0, 1]\<rparr>"

text \<open>A leaf stays and a second one emerges; a leaf is replaced by one elsewhere.\<close>

definition emergence_input :: plant_data where
  "emergence_input = loaded [''t0'', ''t1''] [frame_a, frame_b]"

definition replacement_input :: plant_data where
  "replacement_input = loaded [''t0'', ''t1''] [frame_a, frame_c]"

text \<open>
  The states of \<open>emergence_input\<close> after the counts and \<open>initialize_linking\<close>, after
  \<open>linking\<close> of the one pair, and after \<open>get_series\<close>.
\<close>

definition emergence_prepared :: plant_data where
  "emergence_prepared =
     \<lparr>time = [''t0'', ''t1''], masks = [frame_a, frame_b], total_time = 2, max_nleaf = 2,
      init_nleaf = 1, num_leaves = [1, 2], num_emergence = [1, 1], emerging_info = [[], []],
      link_info = [[- 1]], weights = [[[NegInf, NegInf]]], available_leaves = [[0], [0, 1]],
      time_compare = [[0], [1, 1]], link_series = []\<rparr>"

definition emergence_linked :: plant_data where
  "emergence_linked = emergence_prepared\<lparr>link_info := [[0]]\<rparr>"

definition emergence_tracked :: plant_data where
  "emergence_tracked = emergence_linked\<lparr>link_series :=
     [(0, \<lparr>new_leaf = [0], unique_id = [0], leaf = [(0, [0, 0])]\<rparr>),
      (1, \<lparr>new_leaf = [1], unique_id = [1], leaf = [(1, [- 1, 1])]\<rparr>)]\<rparr>"

text \<open>
  The states of \<open>replacement_input\<close> after the counts and \<open>initialize_linking\<close> (the one
  link stays at the sentinel, so \<open>linking\<close> leaves the state as it is) and after
  \<open>get_series\<close>.
\<close>

definition replacement_prepared :: plant_data where
  "replacement_prepared =
     \<lparr>time = [''t0'', ''t1''], masks = [frame_a, frame_c], total_time = 2, max_nleaf = 1,
      init_nleaf = 1, num_leaves = [1, 1], num_emergence = [1, 0], emerging_info = [[], []],
      link_info = [[- 1]], weights = [[[NegInf]]], available_leaves = [[0], [0]],
      time_compare = [[0], [1]], link_series = []\<rparr>"

definition replacement_tracked :: plant_data where
  "replacement_tracked = replacement_prepared\<lparr>link_series :=
     [(0, \<lparr>new_leaf = [0], unique_id = [0], leaf = [(0, [0, - 1])]\<rparr>),
      (1, \<lparr>new_leaf = [0], unique_id = [1], leaf = [(0, [- 1, 0])]\<rparr>)]\<rparr>"

section \<open>Properties of the overlap engine\<close>

lemma overlap_rows_fails_iff:
  "(\<exists>e. overlap_rows m1 m2 idxs = Inl e) \<longleftrightarrow>
     (idxs \<noteq> [] \<and> height m2 * width m2 \<noteq> height m1 * width m1)"
  by (induction idxs)
     (auto simp: overlap_row_def np_dot_T_def reshape_gt_half_def expand_instance_def Let_def
           split: sum.splits)

lemma binarize_shape [simp]:
  "ninst (binarize m) = ninst m" "height (binarize m) = height m" "width (binarize m) = width m"
  by (simp_all add: binarize_def)

lemma gt_half_idem: "gt_half (gt_half v) = gt_half v"
  by (simp add: gt_half_def)

lemma flat_index_bound:
  fixes p n P N :: nat
  assumes "p < P" "n < N"
  shows "p * N + n < P * N"
proof -
  have "p * N + n < p * N + N" using assms by simp
  also have "\<dots> = (Suc p) * N" by simp
  also have "\<dots> \<le> P * N" using assms by (intro mult_le_mono1) simp
  finally show ?thesis .
qed

lemma reshape_binarize:
  "well_shaped m \<Longrightarrow> reshape_gt_half (binarize m) = reshape_gt_half m"
  unfolding reshape_gt_half_def binarize_def well_shaped_def
  by (simp add: gt_half_idem flat_index_bound)

lemma expand_binarize:
  "well_shaped m \<Longrightarrow> idx_m < ninst m \<Longrightarrow>
   reshape_gt_half (expand_instance (binarize m) idx_m) = reshape_gt_half (expand_instance m idx_m)"
  unfolding reshape_gt_half_def binarize_def well_shaped_def expand_instance_def
  by (simp add: gt_half_idem flat_index_bound)

lemma overlap_row_binarize:
  "well_shaped m1 \<Longrightarrow> well_shaped m2 \<Longrightarrow> idx_m < ninst m1 \<Longrightarrow>
   overlap_row (binarize m1) (binarize m2) idx_m = overlap_row m1 m2 idx_m"
  unfolding overlap_row_def
  by (simp add: reshape_binarize expand_binarize Let_def cong: sum.case_cong)

lemma overlap_rows_binarize:
  "well_shaped m1 \<Longrightarrow> well_shaped m2 \<Longrightarrow> \<forall>i \<in> set idxs. i < ninst m1 \<Longrightarrow>
   overlap_rows (binarize m1) (binarize m2) idxs = overlap_rows m1 m2 idxs"
  by (induction idxs) (simp_all add: overlap_row_binarize cong: sum.case_cong)

lemma compute_overlaps_masks_binarize:
  "well_shaped m1 \<Longrightarrow> well_shaped m2 \<Longrightarrow>
   compute_overlaps_masks (binarize m1) (binarize m2) = compute_overlaps_masks m1 m2"
  unfolding compute_overlaps_masks_def
  by (simp add: overlap_rows_binarize cong: sum.case_cong)

lemma overlap_rows_error: "overlap_rows m1 m2 idxs = Inl e \<Longrightarrow> e = ValueError"
  by (induction idxs)
     (auto simp: overlap_row_def np_dot_T_def Let_def split: sum.splits if_splits)

lemma compute_overlaps_masks_fails_iff:
  "compute_overlaps_masks m1 m2 = Inl e \<longleftrightarrow>
     (e = ValueError \<and> ninst m1 \<noteq> 0 \<and> ninst m2 \<noteq> 0 \<and>
      height m1 * width m1 \<noteq> height m2 * width m2)"
proof -
  have "(\<exists>e. overlap_rows m1 m2 [0..<ninst m1] = Inl e) \<longleftrightarrow>
        (ninst m1 \<noteq> 0 \<and> height m2 * width m2 \<noteq> height m1 * width m1)"
    by (simp add: overlap_rows_fails_iff)
  then show ?thesis
    unfolding compute_overlaps_masks_def
    using overlap_rows_error [of m1 m2 "[0..<ninst m1]"]
    by (auto split: sum.splits)
qed

text \<open>
  C6 (the code departs from the claim). The claim: every entry of the similarity matrix is a
  defined value in [0,1], and the intersection over union of two empty masks is 0, never NaN.
  The division \<open>np.divide(intersections, unions)\<close> is not guarded: for two empty masks it
  computes 0/0, and the matrix returned holds NaN.
\<close>

theorem compute_overlaps_masks_empty_pair_nan:
  "compute_overlaps_masks empty_mask empty_mask = Inr [[NaN]]"
  by code_simp

text \<open>
  C10 as stated fails: a mask with the values 7 and 0.3 on a 2 x 1 image and a mask on a
  1 x 2 image differ in their dimensions and the first is not binary, yet the computation
  returns a matrix.
\<close>

theorem compute_overlaps_masks_accepts_malformed:
  "\<not> same_dims tall_mask wide_mask \<and> \<not> binary_valued tall_mask \<and>
   compute_overlaps_masks tall_mask wide_mask = Inr [[Fin 1]]"
  by code_simp

text \<open>
  C10, amended. Mask input is not validated. The overlap computation raises, with numpy's
  ValueError from the matrix product, exactly when both mask sets are non-empty and their
  pixel counts height * width differ. Mask values are never rejected: each is compared with
  0.5, so the result is the one of the mask sets with every value above 0.5 replaced by 1
  and every other value by 0.
\<close>

theorem compute_overlaps_masks_validation:
  assumes "well_shaped m1" and "well_shaped m2"
  shows "(compute_overlaps_masks m1 m2 = Inl e \<longleftrightarrow>
            (e = ValueError \<and> ninst m1 \<noteq> 0 \<and> ninst m2 \<noteq> 0 \<and>
             height m1 * width m1 \<noteq> height m2 * width m2)) \<and>
         compute_overlaps_masks m1 m2 = compute_overlaps_masks (binarize m1) (binarize m2)"
  using assms
  by (simp add: compute_overlaps_masks_fails_iff compute_overlaps_masks_binarize)

theorem compute_overlaps_masks_validation_witness:
  "well_shaped tall_mask \<and> well_shaped wide_mask \<and>
   compute_overlaps_masks tall_mask wide_mask \<noteq> Inl ValueError \<and>
   compute_overlaps_masks tall_mask wide_mask =
     compute_overlaps_masks (binarize tall_mask) (binarize wide_mask)"
proof -
  have h1: "well_shaped tall_mask" by (simp add: well_shaped_def tall_mask_def)
  have h2: "well_shaped wide_mask" by (simp add: well_shaped_def wide_mask_def)
  have dims: "height tall_mask * width tall_mask = height wide_mask * width wide_mask"
    by (simp add: tall_mask_def wide_mask_def)
  from compute_overlaps_masks_validation [OF h1 h2, of ValueError] dims
  have "compute_overlaps_masks tall_mask wide_mask \<noteq> Inl ValueError \<and>
        compute_overlaps_masks tall_mask wide_mask =
          compute_overlaps_masks (binarize tall_mask) (binarize wide_mask)"
    by blast
  with h1 h2 show ?thesis by blast
qed

section \<open>Properties of the assignment\<close>

lemma assign_loop_char:
  assumes "assign_loop thr W avail ps link = Inr link'" and "distinct (map fst ps)"
  shows "length link' = length link \<and>
         (\<forall>r < length link. link' ! r =
            (case map_of ps r of
               None \<Rightarrow> link ! r
             | Some c \<Rightarrow> if np_ge (W ! r ! c) thr then int (avail ! c) else link ! r)) \<and>
         (\<forall>(r, c) \<in> set ps. r < length W \<and> c < length (W ! r) \<and>
            (np_ge (W ! r ! c) thr \<longrightarrow> c < length avail \<and> r < length link))"
  using assms
proof (induction ps arbitrary: link)
  case Nil
  then show ?case by simp
next
  case (Cons p ps)
  obtain r0 c0 where p: "p = (r0, c0)" by (cases p)
  from Cons.prems(2) p have d: "distinct (map fst ps)" and nin: "r0 \<notin> fst ` set ps" by auto
  from nin have none: "map_of ps r0 = None" by (simp add: map_of_eq_None_iff)
  from Cons.prems(1) p have rng: "r0 < length W" "c0 < length (W ! r0)"
    by (auto split: if_splits)
  show ?case
  proof (cases "np_ge (W ! r0 ! c0) thr")
    case True
    with Cons.prems(1) p rng have rng2: "c0 < length avail" "r0 < length link"
      and rest: "assign_loop thr W avail ps (link[r0 := int (avail ! c0)]) = Inr link'"
      by (auto split: if_splits)
    from Cons.IH [OF rest d] True rng rng2 p none show ?thesis
      by (auto simp: nth_list_update split: option.splits)
  next
    case False
    with Cons.prems(1) p rng have rest: "assign_loop thr W avail ps link = Inr link'"
      by (auto split: if_splits)
    from Cons.IH [OF rest d] False rng p none show ?thesis
      by (auto split: option.splits)
  qed
qed


lemma solver_ok_diagonal: "solver_ok diagonal_solver"
  by (auto simp: solver_ok_def diagonal_solver_def is_assignment_def Let_def list_all_iff
      zip_same)

lemma np_less_maximum: "np_less (np_maximum a b) t \<longleftrightarrow> np_less a t \<and> np_less b t"
  by (cases a; cases b) auto

lemma np_less_foldl_maximum:
  "np_less (foldl np_maximum a xs) t \<longleftrightarrow> np_less a t \<and> (\<forall>x \<in> set xs. np_less x t)"
  by (induction xs arbitrary: a) (auto simp: np_less_maximum)

lemma np_max_axis0_Inr:
  assumes "np_max_axis0 weight = Inr colmax" and "\<forall>row \<in> set weight. length row = n1"
  shows "weight \<noteq> [] \<and> length colmax = n1 \<and>
         (\<forall>j<n1. np_less (colmax ! j) t \<longleftrightarrow> (\<forall>row \<in> set weight. np_less (row ! j) t))"
  using assms
  by (cases weight) (auto simp: np_max_axis0_def np_less_foldl_maximum)

lemma np_max_axis0_Inl: "np_max_axis0 weight = Inl e \<longleftrightarrow> weight = [] \<and> e = ValueError"
  by (cases weight) (auto simp: np_max_axis0_def)

lemma set_low_columns:
  "set (low_columns thr colmax) = {j. j < length colmax \<and> np_less (colmax ! j) thr}"
  by (auto simp: low_columns_def)

lemma np_delete_cols_nth:
  assumes "r < length weight" and "length (weight ! r) = n1"
    and "c < length (filter (\<lambda>x. x \<notin> set idx_col) [0..<n1])"
  shows "np_delete_cols weight idx_col ! r ! c =
         weight ! r ! (filter (\<lambda>x. x \<notin> set idx_col) [0..<n1] ! c)"
  using assms by (simp add: np_delete_cols_def)

lemma np_delete_cols_length:
  "length (np_delete_cols weight idx_col) = length weight"
  "r < length weight \<Longrightarrow> length (weight ! r) = n1 \<Longrightarrow>
   length (np_delete_cols weight idx_col ! r) = length (filter (\<lambda>x. x \<notin> set idx_col) [0..<n1])"
  by (simp_all add: np_delete_cols_def)

lemma map_of_zip_distinct_snd:
  assumes "distinct ys" and "length xs = length ys"
    and "map_of (zip xs ys) a = Some c" and "map_of (zip xs ys) b = Some c"
  shows "a = b"
proof -
  from assms(3,4) have "(a, c) \<in> set (zip xs ys)" "(b, c) \<in> set (zip xs ys)"
    by (auto dest: map_of_SomeD)
  then obtain i j where i: "i < length xs" "xs ! i = a" "ys ! i = c"
    and j: "j < length xs" "xs ! j = b" "ys ! j = c"
    by (auto simp: set_zip)
  from i j assms(2) have "ys ! i = ys ! j" "i < length ys" "j < length ys" by simp_all
  with assms(1) have "i = j" by (simp add: nth_eq_iff_index_eq)
  with i j show ?thesis by simp
qed

text \<open>What the link vector is, in terms of the solver's answer on the filtered matrix.\<close>

lemma assign_links_char:
  assumes ok: "solver_ok lsa" and res: "assign_links lsa thr n0 n1 weight = Inr link"
  shows "\<exists>colmax row_ind col_ind.
           np_max_axis0 weight = Inr colmax \<and>
           lsa (np_delete_cols weight (low_columns thr colmax)) = Inr (row_ind, col_ind) \<and>
           is_assignment (np_delete_cols weight (low_columns thr colmax)) row_ind col_ind \<and>
           length link = n0 \<and>
           (\<forall>r<n0. link ! r =
              (case map_of (zip row_ind col_ind) r of
                 None \<Rightarrow> - 1
               | Some c \<Rightarrow>
                   if np_ge (np_delete_cols weight (low_columns thr colmax) ! r ! c) thr
                   then int (filter (\<lambda>x. x \<notin> set (low_columns thr colmax)) [0..<n1] ! c)
                   else - 1)) \<and>
           (\<forall>(r, c) \<in> set (zip row_ind col_ind).
              np_ge (np_delete_cols weight (low_columns thr colmax) ! r ! c) thr \<longrightarrow>
              c < length (filter (\<lambda>x. x \<notin> set (low_columns thr colmax)) [0..<n1]) \<and> r < n0)"
proof -
  from res obtain colmax where cm: "np_max_axis0 weight = Inr colmax"
    by (auto simp: assign_links_def split: sum.splits)
  let ?W = "np_delete_cols weight (low_columns thr colmax)"
  let ?avail = "filter (\<lambda>x. x \<notin> set (low_columns thr colmax)) [0..<n1]"
  from res cm obtain row_ind col_ind where sol: "lsa ?W = Inr (row_ind, col_ind)"
    and loop: "assign_loop thr ?W ?avail (zip row_ind col_ind) (replicate n0 (- 1)) = Inr link"
    by (auto simp: assign_links_def Let_def split: sum.splits)
  from ok sol have asg: "is_assignment ?W row_ind col_ind"
    by (simp add: solver_ok_def)
  then have "distinct (map fst (zip row_ind col_ind))"
    by (simp add: is_assignment_def)
  from assign_loop_char [OF loop this]
  have len: "length link = n0"
    and vals: "\<forall>r<n0. link ! r =
              (case map_of (zip row_ind col_ind) r of
                 None \<Rightarrow> - 1
               | Some c \<Rightarrow> if np_ge (?W ! r ! c) thr then int (?avail ! c) else - 1)"
    and rng: "\<forall>(r, c) \<in> set (zip row_ind col_ind).
              np_ge (?W ! r ! c) thr \<longrightarrow> c < length ?avail \<and> r < n0"
    by (auto split: option.splits)
  from cm sol asg len vals rng show ?thesis
    by blast
qed

lemma filter_upt_nth_bound:
  "c < length (filter P [0..<n]) \<Longrightarrow> filter P [0..<n] ! c < n"
  using nth_mem [of c "filter P [0..<n]"] by auto

lemma assign_links_link_vector:
  assumes ok: "solver_ok lsa" and res: "assign_links lsa thr n0 n1 weight = Inr link"
  shows "length link = n0 \<and>
         (\<forall>i<n0. link ! i = - 1 \<or> (0 \<le> link ! i \<and> link ! i < int n1)) \<and>
         (\<forall>i<n0. \<forall>j<n0. i \<noteq> j \<and> link ! i \<noteq> - 1 \<longrightarrow> link ! i \<noteq> link ! j)"
proof -
  from assign_links_char [OF ok res] obtain colmax row_ind col_ind where
    asg: "is_assignment (np_delete_cols weight (low_columns thr colmax)) row_ind col_ind"
    and len: "length link = n0"
    and vals: "\<forall>r<n0. link ! r =
              (case map_of (zip row_ind col_ind) r of
                 None \<Rightarrow> - 1
               | Some c \<Rightarrow>
                   if np_ge (np_delete_cols weight (low_columns thr colmax) ! r ! c) thr
                   then int (filter (\<lambda>x. x \<notin> set (low_columns thr colmax)) [0..<n1] ! c)
                   else - 1)"
    and rng: "\<forall>(r, c) \<in> set (zip row_ind col_ind).
              np_ge (np_delete_cols weight (low_columns thr colmax) ! r ! c) thr \<longrightarrow>
              c < length (filter (\<lambda>x. x \<notin> set (low_columns thr colmax)) [0..<n1]) \<and> r < n0"
    by blast
  let ?avail = "filter (\<lambda>x. x \<notin> set (low_columns thr colmax)) [0..<n1]"
  have matched: "\<exists>c. map_of (zip row_ind col_ind) r = Some c \<and> c < length ?avail \<and>
                    link ! r = int (?avail ! c)"
    if "r < n0" "link ! r \<noteq> - 1" for r
  proof -
    from vals that obtain c where c: "map_of (zip row_ind col_ind) r = Some c"
      and ge: "np_ge (np_delete_cols weight (low_columns thr colmax) ! r ! c) thr"
      and v: "link ! r = int (?avail ! c)"
      by (auto split: option.splits if_splits)
    from c have "(r, c) \<in> set (zip row_ind col_ind)" by (rule map_of_SomeD)
    with rng ge have "c < length ?avail" by auto
    with c v show ?thesis by blast
  qed
  have range: "link ! i = - 1 \<or> (0 \<le> link ! i \<and> link ! i < int n1)" if "i < n0" for i
  proof (cases "link ! i = - 1")
    case False
    from matched [OF that False] obtain c where "c < length ?avail" "link ! i = int (?avail ! c)"
      by blast
    with filter_upt_nth_bound [of c _ n1] show ?thesis by simp
  qed simp
  have inj: "link ! i \<noteq> link ! j" if "i < n0" "j < n0" "i \<noteq> j" "link ! i \<noteq> - 1" for i j
  proof
    assume eq: "link ! i = link ! j"
    from matched [OF that(1,4)] obtain c where c: "map_of (zip row_ind col_ind) i = Some c"
      "c < length ?avail" "link ! i = int (?avail ! c)" by blast
    from eq that(4) have "link ! j \<noteq> - 1" by simp
    from matched [OF that(2) this] obtain d where d: "map_of (zip row_ind col_ind) j = Some d"
      "d < length ?avail" "link ! j = int (?avail ! d)" by blast
    from eq c d have "?avail ! c = ?avail ! d" by simp
    with c(2) d(2) have "c = d" by (simp add: nth_eq_iff_index_eq)
    with c d asg have "i = j"
      by (auto simp: is_assignment_def intro: map_of_zip_distinct_snd [of col_ind row_ind])
    with that show False by simp
  qed
  from len range inj show ?thesis by blast
qed


text \<open>
  C2. For every weight matrix and every threshold, the link vector returned has one entry
  per row, every entry is the sentinel \<open>-1\<close> or an index into \<open>[0, n1)\<close>, and no two distinct
  rows carry the same index.
\<close>

theorem assign_links_one_to_one:
  assumes ok: "solver_ok lsa" and res: "assign_links lsa thr n0 n1 weight = Inr link"
  shows "length link = n0 \<and>
         (\<forall>i<n0. link ! i = - 1 \<or> (0 \<le> link ! i \<and> link ! i < int n1)) \<and>
         (\<forall>i<n0. \<forall>j<n0. i \<noteq> j \<and> link ! i \<noteq> - 1 \<longrightarrow> link ! i \<noteq> link ! j)"
  using assms by (rule assign_links_link_vector)

text \<open>The matrix \<open>boundary_weight\<close> at threshold 0.2 gives the link vector \<open>[0, -1]\<close>.\<close>

theorem assign_links_one_to_one_witness:
  "solver_ok diagonal_solver \<and>
   assign_links diagonal_solver (2 / 10) 2 2 boundary_weight = Inr [0, - 1] \<and>
   length [0, - 1 :: int] = 2 \<and> [0, - 1 :: int] ! 0 \<noteq> [0, - 1] ! 1"
proof -
  have h1: "solver_ok diagonal_solver" by (rule solver_ok_diagonal)
  have h2: "assign_links diagonal_solver (2 / 10) 2 2 boundary_weight = Inr [0, - 1]"
    by code_simp
  from assign_links_one_to_one [OF h1 h2]
  have len: "length [0, - 1 :: int] = 2"
    and inj: "\<forall>i<2. \<forall>j<2. i \<noteq> j \<and> [0, - 1] ! i \<noteq> (- 1 :: int) \<longrightarrow>
                [0, - 1 :: int] ! i \<noteq> [0, - 1] ! j"
    by blast+
  from inj [rule_format, of 0 1] have "[0, - 1 :: int] ! 0 \<noteq> [0, - 1] ! 1" by simp
  with h1 h2 len show ?thesis by (intro conjI)
qed

text \<open>The filtered matrix and the list of the columns kept, under the shape hypothesis.\<close>

lemma assign_links_aligned:
  assumes ok: "solver_ok lsa"
    and rows: "length weight = n0" and cols: "\<forall>row \<in> set weight. length row = n1"
    and res: "assign_links lsa thr n0 n1 weight = Inr link"
  shows "\<exists>colmax row_ind col_ind.
           np_max_axis0 weight = Inr colmax \<and> length colmax = n1 \<and>
           lsa (np_delete_cols weight (low_columns thr colmax)) = Inr (row_ind, col_ind) \<and>
           length row_ind = length col_ind \<and> distinct row_ind \<and> distinct col_ind \<and>
           (\<forall>(r, c) \<in> set (zip row_ind col_ind).
              r < n0 \<and> c < length (filter (\<lambda>x. x \<notin> set (low_columns thr colmax)) [0..<n1])) \<and>
           (\<forall>r<n0. link ! r =
              (case map_of (zip row_ind col_ind) r of
                 None \<Rightarrow> - 1
               | Some c \<Rightarrow>
                   if np_ge (weight ! r !
                              (filter (\<lambda>x. x \<notin> set (low_columns thr colmax)) [0..<n1] ! c)) thr
                   then int (filter (\<lambda>x. x \<notin> set (low_columns thr colmax)) [0..<n1] ! c)
                   else - 1))"
proof -
  from assign_links_char [OF ok res] obtain colmax row_ind col_ind where
    cm: "np_max_axis0 weight = Inr colmax"
    and sol: "lsa (np_delete_cols weight (low_columns thr colmax)) = Inr (row_ind, col_ind)"
    and asg: "is_assignment (np_delete_cols weight (low_columns thr colmax)) row_ind col_ind"
    and vals: "\<forall>r<n0. link ! r =
              (case map_of (zip row_ind col_ind) r of
                 None \<Rightarrow> - 1
               | Some c \<Rightarrow>
                   if np_ge (np_delete_cols weight (low_columns thr colmax) ! r ! c) thr
                   then int (filter (\<lambda>x. x \<notin> set (low_columns thr colmax)) [0..<n1] ! c)
                   else - 1)"
    by blast
  let ?idx = "low_columns thr colmax"
  let ?avail = "filter (\<lambda>x. x \<notin> set ?idx) [0..<n1]"
  from np_max_axis0_Inr [OF cm cols] have lcm: "length colmax = n1" by simp
  have pos: "r < n0 \<and> c < length ?avail" if "(r, c) \<in> set (zip row_ind col_ind)" for r c
  proof -
    from asg that have r: "r < length (np_delete_cols weight ?idx)"
      and c: "c < length (np_delete_cols weight ?idx ! r)"
      by (auto simp: is_assignment_def list_all_iff)
    from r rows have r': "r < length weight" "r < n0" by (simp_all add: np_delete_cols_length)
    with cols have "length (weight ! r) = n1" by simp
    from np_delete_cols_length(2) [OF r'(1) this, of ?idx] c r' show ?thesis by simp
  qed
  have entry: "np_delete_cols weight ?idx ! r ! c = weight ! r ! (?avail ! c)"
    if "map_of (zip row_ind col_ind) r = Some c" for r c
  proof -
    from that have "(r, c) \<in> set (zip row_ind col_ind)" by (rule map_of_SomeD)
    from pos [OF this] rows cols show ?thesis
      by (intro np_delete_cols_nth) simp_all
  qed
  from vals entry have vals': "\<forall>r<n0. link ! r =
              (case map_of (zip row_ind col_ind) r of
                 None \<Rightarrow> - 1
               | Some c \<Rightarrow> if np_ge (weight ! r ! (?avail ! c)) thr then int (?avail ! c) else - 1)"
    by (auto split: option.splits)
  from asg have "length row_ind = length col_ind" "distinct row_ind" "distinct col_ind"
    by (simp_all add: is_assignment_def)
  with cm lcm sol pos vals' show ?thesis by blast
qed

text \<open>
  C3. A row is matched to a column only if their similarity is at least the threshold. For
  every pair (row, column) proposed by the solver, a similarity equal to the threshold is
  accepted, as is every similarity above it, and a similarity below it leaves the row at
  the sentinel; a row the solver does not propose stays at the sentinel.
\<close>

theorem assign_links_threshold:
  assumes ok: "solver_ok lsa"
    and rows: "length weight = n0" and cols: "\<forall>row \<in> set weight. length row = n1"
    and res: "assign_links lsa thr n0 n1 weight = Inr link"
  shows "(\<forall>r<n0. link ! r \<noteq> - 1 \<longrightarrow>
            0 \<le> link ! r \<and> nat (link ! r) < n1 \<and> np_ge (weight ! r ! nat (link ! r)) thr) \<and>
         (\<exists>colmax row_ind col_ind.
            np_max_axis0 weight = Inr colmax \<and>
            lsa (np_delete_cols weight (low_columns thr colmax)) = Inr (row_ind, col_ind) \<and>
            (\<forall>(r, c) \<in> set (zip row_ind col_ind).
               (let j = filter (\<lambda>x. x \<notin> set (low_columns thr colmax)) [0..<n1] ! c
                in (weight ! r ! j = Fin thr \<longrightarrow> link ! r = int j) \<and>
                   (np_ge (weight ! r ! j) thr \<longrightarrow> link ! r = int j) \<and>
                   (\<not> np_ge (weight ! r ! j) thr \<longrightarrow> link ! r = - 1))) \<and>
            (\<forall>r<n0. r \<notin> set row_ind \<longrightarrow> link ! r = - 1))"
proof -
  from assign_links_aligned [OF ok rows cols res] obtain colmax row_ind col_ind where
    cm: "np_max_axis0 weight = Inr colmax"
    and sol: "lsa (np_delete_cols weight (low_columns thr colmax)) = Inr (row_ind, col_ind)"
    and len: "length row_ind = length col_ind" and dr: "distinct row_ind"
    and pos: "\<forall>(r, c) \<in> set (zip row_ind col_ind).
              r < n0 \<and> c < length (filter (\<lambda>x. x \<notin> set (low_columns thr colmax)) [0..<n1])"
    and vals: "\<forall>r<n0. link ! r =
              (case map_of (zip row_ind col_ind) r of
                 None \<Rightarrow> - 1
               | Some c \<Rightarrow>
                   if np_ge (weight ! r !
                              (filter (\<lambda>x. x \<notin> set (low_columns thr colmax)) [0..<n1] ! c)) thr
                   then int (filter (\<lambda>x. x \<notin> set (low_columns thr colmax)) [0..<n1] ! c)
                   else - 1)"
    by blast
  let ?avail = "filter (\<lambda>x. x \<notin> set (low_columns thr colmax)) [0..<n1]"
  from dr len have dz: "distinct (map fst (zip row_ind col_ind))" by simp
  have first: "0 \<le> link ! r \<and> nat (link ! r) < n1 \<and> np_ge (weight ! r ! nat (link ! r)) thr"
    if "r < n0" "link ! r \<noteq> - 1" for r
  proof -
    from vals that obtain c where c: "map_of (zip row_ind col_ind) r = Some c"
      and ge: "np_ge (weight ! r ! (?avail ! c)) thr"
      and v: "link ! r = int (?avail ! c)"
      by (auto split: option.splits if_splits)
    from c have "(r, c) \<in> set (zip row_ind col_ind)" by (rule map_of_SomeD)
    with pos have "c < length ?avail" by auto
    from filter_upt_nth_bound [OF this] ge v show ?thesis by simp
  qed
  have cand: "(weight ! r ! (?avail ! c) = Fin thr \<longrightarrow> link ! r = int (?avail ! c)) \<and>
              (np_ge (weight ! r ! (?avail ! c)) thr \<longrightarrow> link ! r = int (?avail ! c)) \<and>
              (\<not> np_ge (weight ! r ! (?avail ! c)) thr \<longrightarrow> link ! r = - 1)"
    if "(r, c) \<in> set (zip row_ind col_ind)" for r c
  proof -
    from dz that have "map_of (zip row_ind col_ind) r = Some c" by (rule map_of_is_SomeI)
    moreover from pos that have "r < n0" by auto
    ultimately show ?thesis using vals by auto
  qed
  have unsolved: "link ! r = - 1" if "r < n0" "r \<notin> set row_ind" for r
  proof -
    from that(2) have "map_of (zip row_ind col_ind) r = None"
      by (auto simp: map_of_eq_None_iff dest: set_zip_leftD)
    with vals that(1) show ?thesis by simp
  qed
  from cand have "\<forall>(r, c) \<in> set (zip row_ind col_ind).
               (let j = ?avail ! c
                in (weight ! r ! j = Fin thr \<longrightarrow> link ! r = int j) \<and>
                   (np_ge (weight ! r ! j) thr \<longrightarrow> link ! r = int j) \<and>
                   (\<not> np_ge (weight ! r ! j) thr \<longrightarrow> link ! r = - 1))"
    unfolding Let_def by blast
  with first unsolved cm sol show ?thesis by blast
qed


text \<open>
  In \<open>boundary_weight\<close> the similarity of row 0 and column 0 equals the threshold 0.2, and
  row 0 is linked to column 0.
\<close>

theorem assign_links_threshold_witness:
  "solver_ok diagonal_solver \<and> length boundary_weight = 2 \<and>
   list_all (\<lambda>row. length row = 2) boundary_weight \<and>
   assign_links diagonal_solver (2 / 10) 2 2 boundary_weight = Inr [0, - 1] \<and>
   boundary_weight ! 0 ! 0 = Fin (2 / 10) \<and>
   np_ge (boundary_weight ! 0 ! nat ([0, - 1] ! 0)) (2 / 10)"
proof -
  have h1: "solver_ok diagonal_solver" by (rule solver_ok_diagonal)
  have h2: "length boundary_weight = 2" by (simp add: boundary_weight_def)
  have h3: "\<forall>row \<in> set boundary_weight. length row = 2" by (simp add: boundary_weight_def)
  have h4: "assign_links diagonal_solver (2 / 10) 2 2 boundary_weight = Inr [0, - 1]"
    by code_simp
  have h5: "boundary_weight ! 0 ! 0 = Fin (2 / 10)" by (simp add: boundary_weight_def)
  from assign_links_threshold [OF h1 h2 h3 h4]
  have "\<forall>r<2. [0, - 1] ! r \<noteq> (- 1 :: int) \<longrightarrow>
          np_ge (boundary_weight ! r ! nat ([0, - 1] ! r)) (2 / 10)"
    by blast
  from this [rule_format, of 0]
  have h6: "np_ge (boundary_weight ! 0 ! nat ([0, - 1] ! 0)) (2 / 10)" by simp
  from h3 have h3': "list_all (\<lambda>row. length row = 2) boundary_weight"
    by (simp add: list_all_iff)
  from h1 h2 h3' h4 h5 h6 show ?thesis by (intro conjI)
qed

text \<open>
  C4. A column is dropped exactly when its maximum, that is every one of its entries, is
  below the threshold. The solver is called on the matrix of the remaining columns only, each
  proposed pair is compared with the threshold again, and no row is linked to a dropped
  column.
\<close>

theorem assign_links_filter_solve_rethreshold:
  assumes ok: "solver_ok lsa"
    and rows: "length weight = n0" and cols: "\<forall>row \<in> set weight. length row = n1"
    and res: "assign_links lsa thr n0 n1 weight = Inr link"
  shows "\<exists>colmax row_ind col_ind.
           np_max_axis0 weight = Inr colmax \<and>
           (\<forall>j<n1. np_less (colmax ! j) thr \<longleftrightarrow> (\<forall>r<n0. np_less (weight ! r ! j) thr)) \<and>
           (let kept = filter (\<lambda>j. \<not> np_less (colmax ! j) thr) [0..<n1]
            in lsa (map (\<lambda>row. map (\<lambda>j. row ! j) kept) weight) = Inr (row_ind, col_ind) \<and>
               (\<forall>r<n0. link ! r =
                  (case map_of (zip row_ind col_ind) r of
                     None \<Rightarrow> - 1
                   | Some c \<Rightarrow>
                       if np_ge (weight ! r ! (kept ! c)) thr then int (kept ! c) else - 1))) \<and>
           (\<forall>j<n1. np_less (colmax ! j) thr \<longrightarrow> (\<forall>r<n0. link ! r \<noteq> int j))"
proof -
  from assign_links_aligned [OF ok rows cols res] obtain colmax row_ind col_ind where
    cm: "np_max_axis0 weight = Inr colmax" and lcm: "length colmax = n1"
    and sol: "lsa (np_delete_cols weight (low_columns thr colmax)) = Inr (row_ind, col_ind)"
    and pos: "\<forall>(r, c) \<in> set (zip row_ind col_ind).
              r < n0 \<and> c < length (filter (\<lambda>x. x \<notin> set (low_columns thr colmax)) [0..<n1])"
    and vals: "\<forall>r<n0. link ! r =
              (case map_of (zip row_ind col_ind) r of
                 None \<Rightarrow> - 1
               | Some c \<Rightarrow>
                   if np_ge (weight ! r !
                              (filter (\<lambda>x. x \<notin> set (low_columns thr colmax)) [0..<n1] ! c)) thr
                   then int (filter (\<lambda>x. x \<notin> set (low_columns thr colmax)) [0..<n1] ! c)
                   else - 1)"
    by blast
  let ?kept = "filter (\<lambda>j. \<not> np_less (colmax ! j) thr) [0..<n1]"
  have kept: "filter (\<lambda>x. x \<notin> set (low_columns thr colmax)) [0..<n1] = ?kept"
    using lcm by (intro filter_cong) (auto simp: set_low_columns)
  have del: "np_delete_cols weight (low_columns thr colmax) =
             map (\<lambda>row. map (\<lambda>j. row ! j) ?kept) weight"
    unfolding np_delete_cols_def using cols kept by (intro map_cong) auto
  from np_max_axis0_Inr [OF cm cols, of thr] rows
  have low: "\<forall>j<n1. np_less (colmax ! j) thr \<longleftrightarrow> (\<forall>r<n0. np_less (weight ! r ! j) thr)"
    by (simp add: all_set_conv_all_nth)
  have dropped: "link ! r \<noteq> int j" if "j < n1" "np_less (colmax ! j) thr" "r < n0" for j r
  proof
    assume eq: "link ! r = int j"
    with vals that(3) kept obtain c where c: "map_of (zip row_ind col_ind) r = Some c"
      and v: "link ! r = int (?kept ! c)"
      by (auto split: option.splits if_splits)
    from c have "(r, c) \<in> set (zip row_ind col_ind)" by (rule map_of_SomeD)
    with pos kept have "c < length ?kept" by auto
    then have "?kept ! c \<in> set ?kept" by (rule nth_mem)
    then have "\<not> np_less (colmax ! (?kept ! c)) thr" by simp
    with eq v that(2) show False by simp
  qed
  from cm low sol vals dropped show ?thesis
    unfolding kept del Let_def by blast
qed

text \<open>
  Column 1 of \<open>boundary_weight\<close> has maximum 0.1 and is dropped: row 1, whose only non-zero
  similarity is in that column, stays unmatched.
\<close>

theorem assign_links_filter_solve_rethreshold_witness:
  "solver_ok diagonal_solver \<and> length boundary_weight = 2 \<and>
   list_all (\<lambda>row. length row = 2) boundary_weight \<and>
   assign_links diagonal_solver (2 / 10) 2 2 boundary_weight = Inr [0, - 1] \<and>
   np_max_axis0 boundary_weight = Inr [Fin (2 / 10), Fin (1 / 10)] \<and>
   [0, - 1] ! 1 \<noteq> int 1"
proof -
  have h1: "solver_ok diagonal_solver" by (rule solver_ok_diagonal)
  have h2: "length boundary_weight = 2" by (simp add: boundary_weight_def)
  have h3: "\<forall>row \<in> set boundary_weight. length row = 2" by (simp add: boundary_weight_def)
  have h4: "assign_links diagonal_solver (2 / 10) 2 2 boundary_weight = Inr [0, - 1]"
    by code_simp
  have h5: "np_max_axis0 boundary_weight = Inr [Fin (2 / 10), Fin (1 / 10)]"
    by code_simp
  from assign_links_filter_solve_rethreshold [OF h1 h2 h3 h4] h5
  have "\<forall>j<2. np_less ([Fin (2 / 10), Fin (1 / 10)] ! j) (2 / 10) \<longrightarrow>
          (\<forall>r<2. [0, - 1] ! r \<noteq> int j)"
    by auto
  from this [rule_format, of 1 1] have h6: "[0, - 1] ! 1 \<noteq> int 1" by simp
  from h3 have h3': "list_all (\<lambda>row. length row = 2) boundary_weight"
    by (simp add: list_all_iff)
  from h1 h2 h3' h4 h5 h6 show ?thesis by (intro conjI)
qed

section \<open>Properties of the trajectory builder\<close>

lemma dict_set_fresh: "k \<notin> fst ` set d \<Longrightarrow> dict_set k v d = d @ [(k, v)]"
  by (induction d) auto

text \<open>The position of a trajectory stays inside the frame.\<close>

lemma spec_trajectory_at_range:
  assumes ok: "\<forall>t<T - 1. link_vector_ok (nl ! t) (nl ! Suc t) (li ! t)"
    and j0: "0 \<le> j0" "j0 < int (nl ! t0)"
    and t: "t < T"
  shows "spec_trajectory_at li t0 j0 t = - 1 \<or>
         (0 \<le> spec_trajectory_at li t0 j0 t \<and> spec_trajectory_at li t0 j0 t < int (nl ! t))"
  using t
proof (induction t)
  case 0
  with j0 show ?case by (auto simp: spec_sentinel_def)
next
  case (Suc t)
  then have IH: "spec_trajectory_at li t0 j0 t = - 1 \<or>
         (0 \<le> spec_trajectory_at li t0 j0 t \<and> spec_trajectory_at li t0 j0 t < int (nl ! t))"
    by simp
  from Suc.prems ok have lv: "link_vector_ok (nl ! t) (nl ! Suc t) (li ! t)" by simp
  show ?case
  proof (cases "Suc t \<le> t0")
    case True
    with j0 show ?thesis by (auto simp: spec_sentinel_def)
  next
    case False
    show ?thesis
    proof (cases "spec_trajectory_at li t0 j0 t = - 1")
      case True
      with False show ?thesis by (simp add: spec_sentinel_def)
    next
      case neg: False
      with IH have "nat (spec_trajectory_at li t0 j0 t) < nl ! t" by auto
      with lv have "li ! t ! nat (spec_trajectory_at li t0 j0 t) = - 1 \<or>
         (0 \<le> li ! t ! nat (spec_trajectory_at li t0 j0 t) \<and>
          li ! t ! nat (spec_trajectory_at li t0 j0 t) < int (nl ! Suc t))"
        by (simp add: link_vector_ok_def)
      with False neg show ?thesis by (simp add: spec_sentinel_def Let_def)
    qed
  qed
qed

lemma spec_sentinel_persists:
  assumes "t0 \<le> a" and "spec_trajectory_at li t0 j0 a = - 1" and "a \<le> k"
  shows "spec_trajectory_at li t0 j0 k = - 1"
  using assms(3)
proof (induction k)
  case 0
  with assms show ?case by simp
next
  case (Suc k)
  show ?case
  proof (cases "a = Suc k")
    case True
    with assms show ?thesis by simp
  next
    case False
    with Suc have "spec_trajectory_at li t0 j0 k = - 1" "t0 \<le> k" using assms(1) by simp_all
    then show ?thesis by (simp add: spec_sentinel_def)
  qed
qed

lemma series_loop_spec:
  assumes ok: "\<forall>t<T - 1. link_vector_ok (nl ! t) (nl ! Suc t) (li ! t)"
    and len: "length li = T - 1"
    and j0: "0 \<le> j0" "j0 < int (nl ! t0)"
  shows "t0 < t \<Longrightarrow> t \<le> T \<Longrightarrow> length ser = T \<Longrightarrow>
         (\<forall>k<t. ser ! k = spec_trajectory_at li t0 j0 k) \<Longrightarrow>
         (\<forall>k. t \<le> k \<and> k < T \<longrightarrow> ser ! k = - 1) \<Longrightarrow>
         series_loop li T t ser = Inr (map (spec_trajectory_at li t0 j0) [0..<T])"
proof (induction "T - t" arbitrary: t ser)
  case 0
  then have "t = T" by simp
  with 0 have "ser = map (spec_trajectory_at li t0 j0) [0..<T]"
    by (intro nth_equalityI) simp_all
  with \<open>t = T\<close> show ?case by (subst series_loop.simps) simp
next
  case (Suc n)
  then have tT: "t < T" by simp
  let ?prev = "spec_trajectory_at li t0 j0 (t - 1)"
  from Suc.prems(1,4) have prev: "ser ! (t - 1) = ?prev" by simp
  from Suc.prems(1) tT have t1: "t - 1 < T" "t0 \<le> t - 1" "Suc (t - 1) = t" by simp_all
  from spec_trajectory_at_range [OF ok j0 t1(1)]
  have rng: "?prev = - 1 \<or> (0 \<le> ?prev \<and> ?prev < int (nl ! (t - 1)))" .
  show ?case
  proof (cases "?prev < 0")
    case True
    with rng have m1: "?prev = - 1" by simp
    have "ser = map (spec_trajectory_at li t0 j0) [0..<T]"
    proof (intro nth_equalityI)
      show "length ser = length (map (spec_trajectory_at li t0 j0) [0..<T])"
        using Suc.prems(3) by simp
    next
      fix k assume "k < length ser"
      with Suc.prems(3) have kT: "k < T" by simp
      show "ser ! k = map (spec_trajectory_at li t0 j0) [0..<T] ! k"
      proof (cases "k < t")
        case True
        with Suc.prems(4) kT show ?thesis by simp
      next
        case False
        then have "t - 1 \<le> k" by simp
        from spec_sentinel_persists [OF t1(2) m1 this] False kT Suc.prems(5)
        show ?thesis by simp
      qed
    qed
    with True prev tT show ?thesis by (subst series_loop.simps) (simp add: Let_def)
  next
    case False
    with rng have pos: "0 \<le> ?prev" "nat ?prev < nl ! (t - 1)" by auto
    from tT t1 ok have lv: "link_vector_ok (nl ! (t - 1)) (nl ! t) (li ! (t - 1))"
      by (metis Suc_lessD less_diff_conv add.commute plus_1_eq_Suc Suc_less_eq)
    then have inr: "nat ?prev < length (li ! (t - 1))"
      using pos by (simp add: link_vector_ok_def)
    from tT len Suc.prems(1) have tl: "t - 1 < length li" by simp
    let ?ser = "ser[t := li ! (t - 1) ! nat ?prev]"
    have step: "spec_trajectory_at li t0 j0 t = li ! (t - 1) ! nat ?prev"
    proof -
      from Suc.prems(1) obtain u where u: "t = Suc u" by (cases t) simp_all
      with Suc.prems(1) False show ?thesis
        by (simp add: spec_sentinel_def Let_def)
    qed
    have "series_loop li T (Suc t) ?ser = Inr (map (spec_trajectory_at li t0 j0) [0..<T])"
    proof (rule Suc.hyps(1))
      show "n = T - Suc t" using Suc.hyps(2) by simp
      show "t0 < Suc t" using Suc.prems(1) by simp
      show "Suc t \<le> T" using tT by simp
      show "length ?ser = T" using Suc.prems(3) by simp
      show "\<forall>k<Suc t. ?ser ! k = spec_trajectory_at li t0 j0 k"
        using Suc.prems(3,4) tT step by (auto simp: nth_list_update less_Suc_eq)
      show "\<forall>k. Suc t \<le> k \<and> k < T \<longrightarrow> ?ser ! k = - 1"
        using Suc.prems(5) by simp
    qed
    with False prev tT tl inr show ?thesis
      by (subst series_loop.simps) (simp add: Let_def)
  qed
qed


lemma spec_trajectory_at_before: "k < t0 \<Longrightarrow> spec_trajectory_at li t0 j0 k = - 1"
  by (cases k) (simp_all add: spec_sentinel_def)

lemma spec_trajectory_at_start: "spec_trajectory_at li t0 j0 t0 = j0"
  by (cases t0) simp_all

lemma spec_trajectory_at_next:
  "0 \<le> j0 \<Longrightarrow> spec_trajectory_at li t0 j0 (Suc t0) = li ! t0 ! nat j0"
  by (simp add: spec_trajectory_at_start spec_sentinel_def Let_def)

lemma leaf_series_spec:
  assumes lk: "linked s" and t0: "t0 < total_time s"
    and lf: "0 \<le> lf" "lf < int (num_leaves s ! t0)"
  shows "leaf_series s t0 lf =
         Inr (map (spec_trajectory_at (link_info s) t0 lf) [0..<total_time s])"
proof -
  let ?T = "total_time s" and ?li = "link_info s" and ?nl = "num_leaves s"
  from lk have ok: "\<forall>t<?T - 1. link_vector_ok (?nl ! t) (?nl ! Suc t) (?li ! t)"
    and len: "length ?li = ?T - 1"
    by (simp_all add: linked_def)
  show ?thesis
  proof (cases "t0 < ?T - 1")
    case False
    with t0 have last: "t0 = ?T - 1" by simp
    have "(replicate ?T (- 1))[t0 := lf] = map (spec_trajectory_at ?li t0 lf) [0..<?T]"
      using t0 last
      by (intro nth_equalityI)
         (auto simp: nth_list_update spec_trajectory_at_start spec_trajectory_at_before)
    with False t0 show ?thesis by (simp add: leaf_series_def Let_def)
  next
    case True
    with ok have lv: "link_vector_ok (?nl ! t0) (?nl ! Suc t0) (?li ! t0)" by simp
    with lf have get: "np_get (?li ! t0) lf = Inr (?li ! t0 ! nat lf)"
      by (simp add: np_get_def link_vector_ok_def)
    let ?ser = "(replicate ?T (- 1))[t0 := lf, t0 + 1 := ?li ! t0 ! nat lf]"
    have "series_loop ?li ?T (t0 + 2) ?ser = Inr (map (spec_trajectory_at ?li t0 lf) [0..<?T])"
    proof (rule series_loop_spec [OF ok len lf])
      show "t0 < t0 + 2" by simp
      show "t0 + 2 \<le> ?T" using True by simp
      show "length ?ser = ?T" by simp
      show "\<forall>k<t0 + 2. ?ser ! k = spec_trajectory_at ?li t0 lf k"
      proof (intro allI impI)
        fix k assume "k < t0 + 2"
        then consider "k < t0" | "k = t0" | "k = Suc t0" by linarith
        then show "?ser ! k = spec_trajectory_at ?li t0 lf k"
        proof cases
          case 1
          with True show ?thesis by (simp add: spec_trajectory_at_before)
        next
          case 2
          with True show ?thesis by (simp add: spec_trajectory_at_start)
        next
          case 3
          with True spec_trajectory_at_next [OF lf(1), of "link_info s" t0] show ?thesis
            by (simp del: spec_trajectory_at.simps)
        qed
      qed
      show "\<forall>k. t0 + 2 \<le> k \<and> k < ?T \<longrightarrow> ?ser ! k = - 1" by simp
    qed
    with True t0 len get show ?thesis by (simp add: leaf_series_def Let_def)
  qed
qed

lemma leaves_loop_spec:
  assumes lk: "linked s" and t0: "t0 < total_time s"
  shows "\<forall>lf \<in> set lfs. 0 \<le> lf \<and> lf < int (num_leaves s ! t0) \<Longrightarrow> distinct lfs \<Longrightarrow>
         set lfs \<inter> fst ` set d = {} \<Longrightarrow>
         leaves_loop s t0 lfs d =
         Inr (d @ map (\<lambda>lf. (lf, map (spec_trajectory_at (link_info s) t0 lf) [0..<total_time s]))
                    lfs)"
proof (induction lfs arbitrary: d)
  case Nil
  then show ?case by simp
next
  case (Cons lf lfs)
  let ?ser = "map (spec_trajectory_at (link_info s) t0 lf) [0..<total_time s]"
  from Cons.prems have ls: "leaf_series s t0 lf = Inr ?ser"
    by (intro leaf_series_spec [OF lk t0]) simp_all
  from Cons.prems have fresh: "lf \<notin> fst ` set d" by auto
  have "leaves_loop s t0 lfs (d @ [(lf, ?ser)]) =
        Inr ((d @ [(lf, ?ser)]) @
             map (\<lambda>lf. (lf, map (spec_trajectory_at (link_info s) t0 lf) [0..<total_time s])) lfs)"
    using Cons.prems by (intro Cons.IH) auto
  with ls fresh show ?case by (simp add: dict_set_fresh)
qed

lemma keys_loop_spec:
  assumes lk: "linked s"
  shows "\<forall>x \<in> set ls. entry_ok s x \<Longrightarrow> keys_loop s ls = Inr (map (with_series s) ls)"
proof (induction ls)
  case Nil
  then show ?case by simp
next
  case (Cons x ls)
  obtain t0 e where x: "x = (t0, e)" by (cases x)
  with Cons.prems have e: "t0 < total_time s" "distinct (new_leaf e)" "leaf e = []"
    "\<forall>lf \<in> set (new_leaf e). 0 \<le> lf \<and> lf < int (num_leaves s ! t0)"
    by (simp_all add: entry_ok_def)
  from leaves_loop_spec [OF lk e(1) e(4) e(2), of "[]"] e(3)
  have "leaves_loop s t0 (new_leaf e) (leaf e) =
        Inr (map (\<lambda>lf. (lf, map (spec_trajectory_at (link_info s) t0 lf) [0..<total_time s]))
                 (new_leaf e))"
    by simp
  with Cons x show ?case by (simp add: with_series_def)
qed

lemma spec_newly_emerged_props:
  "distinct (spec_newly_emerged li nl t) \<and>
   (\<forall>lf \<in> set (spec_newly_emerged li nl t). 0 \<le> lf \<and> lf < int (nl ! t))"
  by (auto simp: spec_newly_emerged_def distinct_map inj_on_def)

lemma emergence_entries_ok:
  "\<forall>t \<in> set ts. t < total_time s \<Longrightarrow> \<forall>x \<in> set (emergence_entries s ts u). entry_ok s x"
proof (induction ts arbitrary: u)
  case Nil
  then show ?case by simp
next
  case (Cons t ts)
  then show ?case
    using spec_newly_emerged_props [of "link_info s" "num_leaves s" t]
    by (auto simp: Let_def entry_ok_def)
qed

lemma emergence_entries_keys: "fst ` set (emergence_entries s ts u) \<subseteq> set ts"
  by (induction ts arbitrary: u) (auto simp: Let_def)

lemma emergence_loop_spec:
  assumes lk: "linked s"
  shows "\<forall>t \<in> set ts. 0 < t \<and> t < total_time s \<Longrightarrow> distinct ts \<Longrightarrow>
         set ts \<inter> fst ` set ls = {} \<Longrightarrow>
         emergence_loop s ts (int u) ls = Inr (ls @ emergence_entries s ts u)"
proof (induction ts arbitrary: u ls)
  case Nil
  then show ?case by simp
next
  case (Cons t ts)
  from Cons.prems have t: "0 < t" "t < total_time s" by simp_all
  with lk have rng: "t < length (available_leaves s)" "t - 1 < length (link_info s)"
    and av: "available_leaves s ! t = map int [0..<num_leaves s ! t]"
    by (auto simp: linked_def)
  let ?new = "spec_newly_emerged (link_info s) (num_leaves s) t"
  from t av have new: "filter (\<lambda>i. i \<notin> set (link_info s ! (t - 1))) (available_leaves s ! t) = ?new"
    by (simp add: spec_newly_emerged_def)
  from Cons.prems have fresh: "t \<notin> fst ` set ls" by auto
  show ?case
  proof (cases "?new = []")
    case True
    from Cons.prems have "emergence_loop s ts (int u) ls = Inr (ls @ emergence_entries s ts u)"
      by (intro Cons.IH) auto
    with True rng new show ?thesis by (simp add: Let_def)
  next
    case False
    let ?e = "\<lparr>new_leaf = ?new, unique_id = map (\<lambda>k. int u + int k) [0..<length ?new],
               leaf = []\<rparr>"
    from Cons.prems
    have "emergence_loop s ts (int (u + length ?new)) (ls @ [(t, ?e)]) =
          Inr ((ls @ [(t, ?e)]) @ emergence_entries s ts (u + length ?new))"
      by (intro Cons.IH) auto
    with False rng new fresh show ?thesis
      by (simp add: Let_def dict_set_fresh)
  qed
qed


lemma map_of_graph: "x \<in> set xs \<Longrightarrow> map_of (map (\<lambda>x. (x, f x)) xs) x = Some (f x)"
  by (induction xs) auto

lemma concat_map_single: "(\<forall>x \<in> set xs. g x = [h x]) \<Longrightarrow> concat (map g xs) = map h xs"
  by (induction xs) auto

lemma identity_rows_with_series:
  "identity_rows (with_series s (t0, e)) =
   map (\<lambda>(u, lf). (u, t0, lf, map (spec_trajectory_at (link_info s) t0 lf) [0..<total_time s]))
       (zip (unique_id e) (new_leaf e))"
  unfolding identity_rows_def with_series_def
  by (auto intro!: concat_map_single simp: map_of_graph dest: set_zip_rightD)

lemma rows_enumerate:
  "map (\<lambda>(u', lf). (u', t, lf, map (spec_trajectory_at (link_info s) t lf) [0..<total_time s]))
       (zip (map (\<lambda>k. int u + int k) [0..<length lfs]) lfs) =
   map (table_row s) (enumerate u (map (Pair t) lfs))"
  by (intro nth_equalityI) (simp_all add: nth_enumerate_eq table_row_def)

lemma rows_first_frame:
  "map (\<lambda>(u', lf). (u', 0, lf, map (spec_trajectory_at (link_info s) 0 lf) [0..<total_time s]))
       (zip (map int [0..<n]) (map int [0..<n])) =
   map (table_row s) (enumerate 0 (map (Pair 0) (map int [0..<n])))"
  by (intro nth_equalityI) (simp_all add: nth_enumerate_eq table_row_def)

lemma emergence_entries_table:
  "concat (map (\<lambda>x. identity_rows (with_series s x)) (emergence_entries s ts u)) =
   map (table_row s)
       (enumerate u (concat (map (\<lambda>t. map (Pair t)
                                           (spec_newly_emerged (link_info s) (num_leaves s) t)) ts)))"
proof (induction ts arbitrary: u)
  case Nil
  then show ?case by simp
next
  case (Cons t ts)
  let ?new = "spec_newly_emerged (link_info s) (num_leaves s) t"
  show ?case
  proof (cases "?new = []")
    case True
    with Cons.IH [of u] show ?thesis by (simp add: Let_def)
  next
    case False
    with Cons.IH [of "u + length ?new"] show ?thesis
      by (simp add: Let_def identity_rows_with_series rows_enumerate enumerate_append_eq)
  qed
qed

text \<open>On a linked state with an empty dictionary, \<open>get_series\<close> builds the specified table.\<close>

lemma get_series_spec:
  assumes lk: "linked s" and fresh: "link_series s = []" and T: "0 < total_time s"
  shows "\<exists>ls. get_series s = Inr (s\<lparr>link_series := ls\<rparr>) \<and>
              concat (map identity_rows ls) =
              spec_table (link_info s) (num_leaves s) (total_time s)"
proof -
  let ?T = "total_time s" and ?nl = "num_leaves s" and ?li = "link_info s"
  let ?al0 = "map int [0..<?nl ! 0]"
  let ?e0 = "\<lparr>new_leaf = ?al0, unique_id = ?al0, leaf = []\<rparr>"
  let ?rest = "emergence_entries s [1..<?T] (?nl ! 0)"
  let ?ls = "map (with_series s) ((0, ?e0) # ?rest)"
  from lk T have upt: "[0..<?T] = 0 # [1..<?T]" by (simp add: upt_conv_Cons)
  from lk T upt obtain als where av: "available_leaves s = ?al0 # als"
    by (auto simp: linked_def)
  have loop: "emergence_loop s [1..<?T] (int (?nl ! 0)) [(0, ?e0)] = Inr ([(0, ?e0)] @ ?rest)"
    by (intro emergence_loop_spec [OF lk]) auto
  have ok0: "entry_ok s (0, ?e0)"
    using T by (auto simp: entry_ok_def distinct_map inj_on_def)
  have okr: "\<forall>x \<in> set ?rest. entry_ok s x"
    by (intro emergence_entries_ok) simp
  from ok0 okr have keys: "keys_loop s ((0, ?e0) # ?rest) = Inr ?ls"
    by (intro keys_loop_spec [OF lk]) auto
  from av fresh loop keys have run: "get_series s = Inr (s\<lparr>link_series := ?ls\<rparr>)"
    by (simp add: get_series_def Let_def)
  have "concat (map identity_rows ?ls) =
        identity_rows (with_series s (0, ?e0)) @
        concat (map (\<lambda>x. identity_rows (with_series s x)) ?rest)"
    by (simp add: comp_def)
  also have "\<dots> = map (table_row s) (enumerate 0 (map (Pair 0) ?al0)) @
                   map (table_row s)
                       (enumerate (?nl ! 0)
                          (concat (map (\<lambda>t. map (Pair t) (spec_newly_emerged ?li ?nl t))
                                       [1..<?T])))"
    by (simp only: emergence_entries_table identity_rows_with_series rows_first_frame
        series_entry.simps)
  also have "\<dots> = spec_table ?li ?nl ?T"
    unfolding spec_table_def spec_emergences_def
    by (subst upt)
       (simp add: enumerate_append_eq table_row_def spec_newly_emerged_def del: upt_Suc)
  finally show ?thesis using run by blast
qed

section \<open>The state that reaches the trajectory builder\<close>

lemma length_np_diff [simp]: "length (np_diff xs) = length xs - 1"
  by (simp add: np_diff_def)

lemma prepare_loaded:
  assumes "prepare (loaded ts ms) = Inr s"
  shows "linked s \<and> one_to_one s \<and> link_series s = [] \<and> masks s = ms \<and>
         num_leaves s = map ninst ms \<and> total_time s = length ts \<and> ms \<noteq> [] \<and>
         weights s = map (\<lambda>i. replicate (map ninst ms ! i)
                                (replicate (map ninst ms ! (i + 1)) NegInf))
                         [0..<length ts - 1] \<and>
         (length ms = length ts \<longrightarrow>
            num_emergence s = take 1 (replicate (length ts) (int (ninst (ms ! 0)))) @
                              np_diff (map ninst ms))"
proof (cases ms)
  case Nil
  with assms show ?thesis
    by (simp add: prepare_def getinitleaf_def loaded_def new_plant_data_def)
next
  case (Cons m0 rest)
  with assms show ?thesis
    unfolding prepare_def getinitleaf_def getmaxleaf_def gettotaltime_def getnumemergence_def
      initialize_linking_def loaded_def new_plant_data_def
    by (auto simp: Let_def linked_def one_to_one_def link_vector_ok_def link_vector_inj_def
        split: if_splits)
qed

lemma linking_linked:
  assumes ok: "solver_ok lsa" and lk: "linked s" and inj: "one_to_one s"
    and run: "linking lsa t s = Inr s'"
  shows "linked s' \<and> one_to_one s' \<and> link_series s' = link_series s \<and>
         masks s' = masks s \<and> num_leaves s' = num_leaves s \<and> total_time s' = total_time s \<and>
         weights s' = weights s \<and> num_emergence s' = num_emergence s"
proof -
  from run obtain weight link where
    rng: "t + 1 < length (available_leaves s)" "t < length (link_info s)"
    and asg: "assign_links lsa threshold (length (available_leaves s ! t))
                (length (available_leaves s ! (t + 1))) weight = Inr link"
    and s': "s' = s\<lparr>link_info := (link_info s)[t := link]\<rparr>"
    by (auto simp: linking_def Let_def split: if_splits sum.splits)
  from lk rng have n0: "length (available_leaves s ! t) = num_leaves s ! t"
    and n1: "length (available_leaves s ! (t + 1)) = num_leaves s ! Suc t"
    by (simp_all add: linked_def)
  from assign_links_link_vector [OF ok asg] n0 n1
  have lv: "link_vector_ok (num_leaves s ! t) (num_leaves s ! Suc t) link"
    and li: "link_vector_inj link"
    by (auto simp: link_vector_ok_def link_vector_inj_def)
  from lk lv s' rng have "linked s'"
    by (auto simp: linked_def nth_list_update)
  moreover from inj li s' rng have "one_to_one s'"
    by (auto simp: one_to_one_def nth_list_update)
  ultimately show ?thesis using s' by simp
qed

lemma link_pairs_linked:
  assumes ok: "solver_ok lsa"
  shows "linked s \<Longrightarrow> one_to_one s \<Longrightarrow> link_pairs lsa ts s = Inr s' \<Longrightarrow>
         linked s' \<and> one_to_one s' \<and> link_series s' = link_series s \<and>
         masks s' = masks s \<and> num_leaves s' = num_leaves s \<and> total_time s' = total_time s \<and>
         weights s' = weights s \<and> num_emergence s' = num_emergence s"
proof (induction ts arbitrary: s)
  case Nil
  then show ?case by simp
next
  case (Cons t ts)
  from Cons.prems(3) obtain s1 where s1: "linking lsa t s = Inr s1"
    and rest: "link_pairs lsa ts s1 = Inr s'"
    by (auto split: sum.splits)
  from linking_linked [OF ok Cons.prems(1,2) s1] Cons.IH [OF _ _ rest]
  show ?case by simp
qed

text \<open>The state that reaches \<open>get_series\<close> at the end of \<open>track\<close>.\<close>

lemma track_linked:
  assumes ok: "solver_ok lsa" and run: "track lsa (loaded ts ms) = Inr s'"
  shows "\<exists>s. linked s \<and> one_to_one s \<and> link_series s = [] \<and> get_series s = Inr s' \<and>
             masks s = ms \<and> num_leaves s = map ninst ms \<and> total_time s = length ts \<and>
             ms \<noteq> [] \<and>
             weights s = map (\<lambda>i. replicate (map ninst ms ! i)
                                    (replicate (map ninst ms ! (i + 1)) NegInf))
                             [0..<length ts - 1] \<and>
             (length ms = length ts \<longrightarrow>
                num_emergence s = take 1 (replicate (length ts) (int (ninst (ms ! 0)))) @
                                  np_diff (map ninst ms))"
proof -
  from run obtain s1 s2 where p: "prepare (loaded ts ms) = Inr s1"
    and l: "link_all lsa s1 = Inr s2" and g: "get_series s2 = Inr s'"
    by (auto simp: track_def split: sum.splits)
  from prepare_loaded [OF p] have p': "linked s1" "one_to_one s1" by simp_all
  from l have "link_pairs lsa [0..<total_time s1 - 1] s1 = Inr s2" by (simp add: link_all_def)
  from link_pairs_linked [OF ok p' this] prepare_loaded [OF p] g show ?thesis
    by (intro exI [of _ s2]) simp
qed

section \<open>Every leaf has one identity\<close>

lemma spec_emergences_iff:
  "(t0, j0) \<in> set (spec_emergences li nl T) \<longleftrightarrow>
     t0 < T \<and> j0 \<in> set (spec_newly_emerged li nl t0)"
  by (auto simp: spec_emergences_def)

lemma distinct_tagged_concat:
  "distinct ts \<Longrightarrow> (\<forall>t \<in> set ts. distinct (f t)) \<Longrightarrow>
   distinct (concat (map (\<lambda>t. map (Pair t) (f t)) ts))"
  by (induction ts) (auto simp: distinct_map inj_on_def)

lemma distinct_spec_emergences: "distinct (spec_emergences li nl T)"
  unfolding spec_emergences_def
  using spec_newly_emerged_props [of li nl]
  by (intro distinct_tagged_concat) simp_all

lemma spec_trajectory_at_Suc:
  "t0 \<le> t \<Longrightarrow> spec_trajectory_at li t0 j0 (Suc t) =
     (if spec_trajectory_at li t0 j0 t = - 1 then - 1
      else li ! t ! nat (spec_trajectory_at li t0 j0 t))"
  by (simp add: spec_sentinel_def Let_def)

declare spec_trajectory_at.simps(2) [simp del]

text \<open>
  With one-to-one link vectors, every leaf index of frame \<open>t\<close> is the position at \<open>t\<close> of
  exactly one emergence.
\<close>

lemma unique_claimant:
  assumes ok: "\<forall>t<T - 1. link_vector_ok (nl ! t) (nl ! Suc t) (li ! t)"
    and inj: "\<forall>t<T - 1. link_vector_inj (li ! t)"
  shows "t < T \<Longrightarrow> 0 \<le> j \<Longrightarrow> j < int (nl ! t) \<Longrightarrow>
         \<exists>!x. x \<in> set (spec_emergences li nl T) \<and>
               spec_trajectory_at li (fst x) (snd x) t = j"
proof (induction t arbitrary: j)
  case 0
  let ?x = "(0 :: nat, j)"
  from 0 have "j \<in> set (spec_newly_emerged li nl 0)"
    by (auto simp: spec_newly_emerged_def image_iff intro!: bexI [of _ "nat j"])
  with 0 have mem: "?x \<in> set (spec_emergences li nl T)" by (simp add: spec_emergences_iff)
  have uniq0: "x = ?x" if "x \<in> set (spec_emergences li nl T)"
    "spec_trajectory_at li (fst x) (snd x) 0 = j" for x
  proof -
    from that(2) 0(2) have "fst x = 0" "snd x = j"
      by (auto simp: spec_sentinel_def split: if_splits)
    then show ?thesis by (simp add: prod_eq_iff)
  qed
  show ?case
  proof (rule ex1I [of _ ?x])
    from mem 0(2) show "?x \<in> set (spec_emergences li nl T) \<and>
                     spec_trajectory_at li (fst ?x) (snd ?x) 0 = j"
      by simp
  next
    fix y assume "y \<in> set (spec_emergences li nl T) \<and>
                  spec_trajectory_at li (fst y) (snd y) 0 = j"
    then show "y = ?x" using uniq0 by blast
  qed
next
  case (Suc t)
  from Suc.prems have tT: "t < T" "t < T - 1" by simp_all
  from ok inj tT have lv: "link_vector_ok (nl ! t) (nl ! Suc t) (li ! t)"
    and li: "link_vector_inj (li ! t)" by simp_all
  from lv have len: "length (li ! t) = nl ! t" by (simp add: link_vector_ok_def)
  have later: "a \<le> Suc t" if "spec_trajectory_at li a b (Suc t) = j" for a b
  proof (rule ccontr)
    assume "\<not> a \<le> Suc t"
    then have "Suc t < a" by simp
    from spec_trajectory_at_before [OF this, of li b] that Suc.prems(2) show False by simp
  qed
  have from_prev: "\<exists>i<nl ! t. spec_trajectory_at li a b t = int i \<and> li ! t ! i = j"
    if "(a, b) \<in> set (spec_emergences li nl T)" "a \<le> t"
      "spec_trajectory_at li a b (Suc t) = j" for a b
  proof -
    from that(1) spec_newly_emerged_props [of li nl a]
    have b: "0 \<le> b" "b < int (nl ! a)" by (auto simp: spec_emergences_iff)
    from spec_trajectory_at_range [OF ok b tT(1)]
    have rng: "spec_trajectory_at li a b t = - 1 \<or>
               (0 \<le> spec_trajectory_at li a b t \<and> spec_trajectory_at li a b t < int (nl ! t))" .
    from that(2,3) Suc.prems(2) have ne: "spec_trajectory_at li a b t \<noteq> - 1"
      and v: "li ! t ! nat (spec_trajectory_at li a b t) = j"
      by (auto simp: spec_trajectory_at_Suc split: if_splits)
    with rng show ?thesis
      by (intro exI [of _ "nat (spec_trajectory_at li a b t)"]) auto
  qed
  show ?case
  proof (cases "j \<in> set (li ! t)")
    case True
    then obtain i where i: "i < nl ! t" "li ! t ! i = j"
      using len by (auto simp: in_set_conv_nth)
    from Suc.IH [OF tT(1), of "int i"] i(1)
    have "\<exists>!x. x \<in> set (spec_emergences li nl T) \<and>
               spec_trajectory_at li (fst x) (snd x) t = int i"
      by simp
    then obtain x where xx: "x \<in> set (spec_emergences li nl T) \<and>
                             spec_trajectory_at li (fst x) (snd x) t = int i"
      and uniq: "\<And>y. y \<in> set (spec_emergences li nl T) \<and>
                   spec_trajectory_at li (fst y) (snd y) t = int i \<Longrightarrow> y = x"
      by (elim ex1E) blast
    from xx have x: "x \<in> set (spec_emergences li nl T)"
      "spec_trajectory_at li (fst x) (snd x) t = int i" by simp_all
    have xt: "fst x \<le> t"
    proof (rule ccontr)
      assume "\<not> fst x \<le> t"
      then have "t < fst x" by simp
      from spec_trajectory_at_before [OF this, of li "snd x"] x(2) show False by simp
    qed
    with x(2) i(2) have hit: "spec_trajectory_at li (fst x) (snd x) (Suc t) = j"
      by (simp add: spec_trajectory_at_Suc)
    have uniq1: "y = x" if y: "y \<in> set (spec_emergences li nl T)"
      "spec_trajectory_at li (fst y) (snd y) (Suc t) = j" for y
    proof -
      from later [OF y(2)] have "fst y \<le> Suc t" .
      moreover have "fst y \<noteq> Suc t"
      proof
        assume eq: "fst y = Suc t"
        with y(2) have "snd y = j" by (simp add: spec_trajectory_at_start)
        with eq have "y = (Suc t, j)" by (simp add: prod_eq_iff)
        with y(1) have "j \<in> set (spec_newly_emerged li nl (Suc t))"
          by (simp add: spec_emergences_iff)
        with True show False by (simp add: spec_newly_emerged_def)
      qed
      ultimately have yt: "fst y \<le> t" by simp
      from from_prev [of "fst y" "snd y"] y yt
      obtain i' where i': "i' < nl ! t" "spec_trajectory_at li (fst y) (snd y) t = int i'"
        "li ! t ! i' = j" by auto
      have "i' = i"
      proof (rule ccontr)
        assume "i' \<noteq> i"
        from Suc.prems(2) i'(3) have "li ! t ! i' \<noteq> - 1" by simp
        with li i'(1) i(1) len \<open>i' \<noteq> i\<close> have "li ! t ! i' \<noteq> li ! t ! i"
          unfolding link_vector_inj_def by metis
        with i'(3) i(2) show False by simp
      qed
      with i' y(1) show ?thesis by (intro uniq) simp
    qed
    show ?thesis
    proof (rule ex1I [of _ x])
      from x(1) hit show "x \<in> set (spec_emergences li nl T) \<and>
                          spec_trajectory_at li (fst x) (snd x) (Suc t) = j"
        by simp
    next
      fix y assume "y \<in> set (spec_emergences li nl T) \<and>
                    spec_trajectory_at li (fst y) (snd y) (Suc t) = j"
      then show "y = x" using uniq1 by blast
    qed
  next
    case False
    let ?x = "(Suc t, j)"
    from False Suc.prems have "j \<in> set (spec_newly_emerged li nl (Suc t))"
      by (auto simp: spec_newly_emerged_def image_iff intro!: bexI [of _ "nat j"])
    with Suc.prems have mem: "?x \<in> set (spec_emergences li nl T)"
      by (simp add: spec_emergences_iff)
    have uniq2: "y = ?x" if y: "y \<in> set (spec_emergences li nl T)"
      "spec_trajectory_at li (fst y) (snd y) (Suc t) = j" for y
    proof (cases "fst y = Suc t")
      case True
      with y(2) have "snd y = j" by (simp add: spec_trajectory_at_start)
      with True show ?thesis by (simp add: prod_eq_iff)
    next
      case ne: False
      with later [OF y(2)] have yt: "fst y \<le> t" by simp
      from from_prev [of "fst y" "snd y"] y yt
      obtain i' where "i' < nl ! t" "li ! t ! i' = j" by auto
      with len have "j \<in> set (li ! t)" by (auto simp: in_set_conv_nth)
      with False show ?thesis by simp
    qed
    show ?thesis
    proof (rule ex1I [of _ ?x])
      from mem show "?x \<in> set (spec_emergences li nl T) \<and>
                     spec_trajectory_at li (fst ?x) (snd ?x) (Suc t) = j"
        by (simp add: spec_trajectory_at_start del: spec_trajectory_at.simps)
    next
      fix y assume "y \<in> set (spec_emergences li nl T) \<and>
                    spec_trajectory_at li (fst y) (snd y) (Suc t) = j"
      then show "y = ?x" using uniq2 by blast
    qed
  qed
qed

lemma filter_snd_enumerate:
  "length (filter (\<lambda>p. P (snd p)) (enumerate n xs)) = length (filter P xs)"
  by (induction xs arbitrary: n) simp_all

lemma claimants_spec_table:
  assumes "t < T"
  shows "length (filter (\<lambda>row. trajectory_of row ! t = j) (spec_table li nl T)) =
         length (filter (\<lambda>x. spec_trajectory_at li (fst x) (snd x) t = j)
                        (spec_emergences li nl T))"
proof -
  have "length (filter (\<lambda>row. trajectory_of row ! t = j) (spec_table li nl T)) =
        length (filter (\<lambda>p. spec_trajectory_at li (fst (snd p)) (snd (snd p)) t = j)
                       (enumerate 0 (spec_emergences li nl T)))"
    using assms
    by (simp add: spec_table_def filter_map comp_def trajectory_of_def split_beta)
  also have "\<dots> = length (filter (\<lambda>x. spec_trajectory_at li (fst x) (snd x) t = j)
                                  (spec_emergences li nl T))"
    by (rule filter_snd_enumerate)
  finally show ?thesis .
qed

lemma filter_unique:
  assumes "distinct xs" and "\<exists>!x. x \<in> set xs \<and> P x"
  shows "length (filter P xs) = 1"
proof -
  from assms(2) obtain x where x: "x \<in> set xs \<and> P x"
    and uniq: "\<And>y. y \<in> set xs \<and> P y \<Longrightarrow> y = x"
    by (elim ex1E) blast
  have "set (filter P xs) = {x}"
  proof (rule set_eqI)
    fix y
    from x uniq [of y] show "y \<in> set (filter P xs) \<longleftrightarrow> y \<in> {x}" by fastforce
  qed
  moreover from assms(1) have "distinct (filter P xs)" by simp
  ultimately have "card {x} = length (filter P xs)" by (metis distinct_card)
  then show ?thesis by simp
qed

lemma spec_table_ids:
  "map fst (spec_table li nl T) = map int [0..<length (spec_emergences li nl T)]"
  by (intro nth_equalityI) (simp_all add: spec_table_def nth_enumerate_eq split_beta)

lemma distinct_spec_table_ids: "distinct (map fst (spec_table li nl T))"
  by (simp add: spec_table_ids distinct_map inj_on_def)

lemma get_series_needs_frame: "linked s \<Longrightarrow> get_series s = Inr s' \<Longrightarrow> 0 < total_time s"
  by (rule ccontr) (simp add: linked_def get_series_def)

lemma get_series_table:
  assumes "linked s" and "link_series s = []" and "get_series s = Inr s'"
  shows "identity_table s' = spec_table (link_info s) (num_leaves s) (total_time s) \<and>
         0 < total_time s \<and> total_time s' = total_time s \<and> num_leaves s' = num_leaves s \<and>
         link_info s' = link_info s \<and> weights s' = weights s \<and>
         num_emergence s' = num_emergence s \<and> masks s' = masks s \<and>
         available_leaves s' = available_leaves s"
proof -
  from get_series_needs_frame [OF assms(1,3)] have T: "0 < total_time s" .
  from get_series_spec [OF assms(1,2) T] assms(3) T show ?thesis
    by (auto simp: identity_table_def)
qed

lemma partition_linked:
  assumes lk: "linked s" and inj: "one_to_one s" and fresh: "link_series s = []"
    and run: "get_series s = Inr s'"
  shows "distinct (map fst (identity_table s')) \<and>
         (\<forall>t<total_time s. \<forall>j<num_leaves s ! t. claimants s' t (int j) = 1)"
proof -
  let ?li = "link_info s" and ?nl = "num_leaves s" and ?T = "total_time s"
  from get_series_table [OF lk fresh run]
  have tab: "identity_table s' = spec_table ?li ?nl ?T" by simp
  from lk have ok: "\<forall>t<?T - 1. link_vector_ok (?nl ! t) (?nl ! Suc t) (?li ! t)"
    by (simp add: linked_def)
  from inj have ij: "\<forall>t<?T - 1. link_vector_inj (?li ! t)" by (simp add: one_to_one_def)
  have "claimants s' t (int j) = 1" if "t < ?T" "j < ?nl ! t" for t j
  proof -
    from that have "\<exists>!x. x \<in> set (spec_emergences ?li ?nl ?T) \<and>
                        spec_trajectory_at ?li (fst x) (snd x) t = int j"
      by (intro unique_claimant [OF ok ij]) simp_all
    from filter_unique [OF distinct_spec_emergences this] that(1) show ?thesis
      by (simp add: claimants_def tab claimants_spec_table)
  qed
  with tab show ?thesis by (simp add: distinct_spec_table_ids)
qed

text \<open>
  C1. When a sequence of frames is processed end to end (the counts, \<open>initialize_linking\<close>,
  \<open>linking\<close> for every consecutive pair, then \<open>get_series\<close>) and the run returns, the
  identities are pairwise distinct and every leaf index of every frame is the entry at that
  time of the trajectory of exactly one identity.
\<close>

theorem track_partition:
  assumes ok: "solver_ok lsa" and run: "track lsa (loaded ts ms) = Inr s'"
  shows "total_time s' = length ts \<and> num_leaves s' = map ninst ms \<and>
         distinct (map fst (identity_table s')) \<and>
         (\<forall>t<length ts. \<forall>j<num_leaves s' ! t. claimants s' t (int j) = 1)"
proof -
  from track_linked [OF ok run] obtain s where
    "linked s \<and> one_to_one s \<and> link_series s = [] \<and> get_series s = Inr s' \<and>
     masks s = ms \<and> num_leaves s = map ninst ms \<and> total_time s = length ts \<and>
     ms \<noteq> [] \<and>
     weights s = map (\<lambda>i. replicate (map ninst ms ! i)
                            (replicate (map ninst ms ! (i + 1)) NegInf))
                     [0..<length ts - 1] \<and>
     (length ms = length ts \<longrightarrow>
        num_emergence s = take 1 (replicate (length ts) (int (ninst (ms ! 0)))) @
                          np_diff (map ninst ms))" ..
  then have s: "linked s" "one_to_one s" "link_series s = []"
    "get_series s = Inr s'" "num_leaves s = map ninst ms" "total_time s = length ts"
    by simp_all
  from get_series_table [OF s(1,3,4)] partition_linked [OF s(1,2,3,4)] s(5,6)
  show ?thesis by simp
qed

lemma prepare_emergence: "prepare emergence_input = Inr emergence_prepared"
  by code_simp

lemma link_all_emergence: "link_all diagonal_solver emergence_prepared = Inr emergence_linked"
  by code_simp

lemma get_series_emergence: "get_series emergence_linked = Inr emergence_tracked"
  by code_simp

lemma track_emergence: "track diagonal_solver emergence_input = Inr emergence_tracked"
  by (simp add: track_def prepare_emergence link_all_emergence get_series_emergence)

lemma identity_table_emergence:
  "identity_table emergence_tracked = [(0, 0, 0, [0, 0]), (1, 1, 1, [- 1, 1])]"
  by code_simp

text \<open>
  Two frames, one leaf that stays and one that emerges: identity 0 has the trajectory
  \<open>[0, 0]\<close> and identity 1 the trajectory \<open>[-1, 1]\<close>.
\<close>

theorem track_partition_witness:
  "solver_ok diagonal_solver \<and>
   track diagonal_solver (loaded [''t0'', ''t1''] [frame_a, frame_b]) = Inr emergence_tracked \<and>
   identity_table emergence_tracked = [(0, 0, 0, [0, 0]), (1, 1, 1, [- 1, 1])] \<and>
   total_time emergence_tracked = 2 \<and> num_leaves emergence_tracked = [1, 2] \<and>
   claimants emergence_tracked 0 0 = 1 \<and> claimants emergence_tracked 1 0 = 1 \<and>
   claimants emergence_tracked 1 1 = 1"
proof -
  have h1: "solver_ok diagonal_solver" by (rule solver_ok_diagonal)
  have h2: "track diagonal_solver (loaded [''t0'', ''t1''] [frame_a, frame_b]) =
            Inr emergence_tracked"
    using track_emergence by (simp add: emergence_input_def)
  from track_partition [OF h1 h2]
  have tt: "total_time emergence_tracked = 2" and nl: "num_leaves emergence_tracked = [1, 2]"
    and all: "\<forall>t<2. \<forall>j<num_leaves emergence_tracked ! t.
                claimants emergence_tracked t (int j) = 1"
    by (simp_all add: frame_a_def frame_b_def)
  from all [rule_format, of 0 0] nl have c00: "claimants emergence_tracked 0 0 = 1" by simp
  from all [rule_format, of 1 0] nl have c10: "claimants emergence_tracked 1 0 = 1" by simp
  from all [rule_format, of 1 1] nl have c11: "claimants emergence_tracked 1 1 = 1" by simp
  from h1 h2 identity_table_emergence tt nl c00 c10 c11 show ?thesis by (intro conjI)
qed

section \<open>The claims about the trajectories, the weights and the counts\<close>

lemma prepare_replacement: "prepare replacement_input = Inr replacement_prepared"
  by code_simp

lemma link_all_replacement:
  "link_all diagonal_solver replacement_prepared = Inr replacement_prepared"
  by code_simp

lemma get_series_replacement: "get_series replacement_prepared = Inr replacement_tracked"
  by code_simp

lemma track_replacement: "track diagonal_solver replacement_input = Inr replacement_tracked"
  by (simp add: track_def prepare_replacement link_all_replacement get_series_replacement)

lemma linked_emergence: "linked emergence_linked"
  by (simp add: linked_def link_vector_ok_def emergence_linked_def emergence_prepared_def
      eval_nat_numeral)

text \<open>
  C5. On the state left by the linker, \<open>get_series\<close> returns, and the identities with
  their frames of emergence, leaf indices and trajectories are those of the specified
  algorithm: at frame 0 the identities \<open>0 .. num_leaves[0]-1\<close> in leaf-index order; at a
  later frame exactly the leaf indices that no entry of the previous link vector equals,
  each with the next unused identity in ascending order; and each trajectory the sentinel
  before its first frame, the leaf index there, and afterwards the link of the previous
  value until the first sentinel.
\<close>

theorem get_series_follows_specification:
  assumes "linked s" and "link_series s = []" and "0 < total_time s"
  shows "\<exists>s'. get_series s = Inr s' \<and>
              identity_table s' = spec_table (link_info s) (num_leaves s) (total_time s)"
proof -
  from get_series_spec [OF assms] obtain ls where
    "get_series s = Inr (s\<lparr>link_series := ls\<rparr>)"
    "concat (map identity_rows ls) = spec_table (link_info s) (num_leaves s) (total_time s)"
    by blast
  then show ?thesis by (simp add: identity_table_def)
qed

text \<open>The linked state of the two frames of \<open>emergence_input\<close>.\<close>

theorem get_series_follows_specification_witness:
  "linked emergence_linked \<and> link_series emergence_linked = [] \<and>
   0 < total_time emergence_linked \<and>
   (\<exists>s'. get_series emergence_linked = Inr s' \<and>
      identity_table s' = spec_table [[0]] [1, 2] 2)"
proof -
  have h1: "linked emergence_linked" by (rule linked_emergence)
  have h2: "link_series emergence_linked = []"
    by (simp add: emergence_linked_def emergence_prepared_def)
  have h3: "0 < total_time emergence_linked"
    by (simp add: emergence_linked_def emergence_prepared_def)
  from get_series_follows_specification [OF h1 h2 h3]
  have "\<exists>s'. get_series emergence_linked = Inr s' \<and>
      identity_table s' = spec_table [[0]] [1, 2] 2"
    by (simp add: emergence_linked_def emergence_prepared_def)
  with h1 h2 h3 show ?thesis by (intro conjI)
qed

lemma spec_table_row:
  assumes "(u, t0, j0, ser) \<in> set (spec_table li nl T)"
  shows "(t0, j0) \<in> set (spec_emergences li nl T) \<and>
         ser = map (spec_trajectory_at li t0 j0) [0..<T]"
proof -
  from assms obtain p where p: "p \<in> set (enumerate 0 (spec_emergences li nl T))"
    and row: "(u, t0, j0, ser) =
              (int (fst p), fst (snd p), snd (snd p),
               map (spec_trajectory_at li (fst (snd p)) (snd (snd p))) [0..<T])"
    by (auto simp: spec_table_def split_beta)
  from p have "fst p < length (spec_emergences li nl T)"
    "spec_emergences li nl T ! fst p = snd p"
    by (simp_all add: in_set_enumerate_eq)
  then have "snd p \<in> set (spec_emergences li nl T)"
    by (metis nth_mem)
  with row show ?thesis by simp
qed

text \<open>
  C7, amended. A trajectory is the sentinel at every time before the frame at which its
  identity emerges and holds a leaf index at that frame; if it records the sentinel at that
  frame or later, every later entry is the sentinel too.
\<close>

theorem trajectory_sentinel_after_emergence:
  assumes "linked s" and "link_series s = []" and "get_series s = Inr s'"
    and "(u, t0, j0, ser) \<in> set (identity_table s')"
  shows "length ser = total_time s \<and> t0 < total_time s \<and> (\<forall>t<t0. ser ! t = - 1) \<and>
         ser ! t0 = j0 \<and> 0 \<le> j0 \<and>
         (\<forall>t k. t0 \<le> t \<and> t \<le> k \<and> k < total_time s \<and> ser ! t = - 1 \<longrightarrow> ser ! k = - 1)"
proof -
  let ?li = "link_info s" and ?T = "total_time s"
  from get_series_table [OF assms(1,2,3)] assms(4)
  have "(u, t0, j0, ser) \<in> set (spec_table ?li (num_leaves s) ?T)" by simp
  from spec_table_row [OF this]
  have em: "(t0, j0) \<in> set (spec_emergences ?li (num_leaves s) ?T)"
    and ser: "ser = map (spec_trajectory_at ?li t0 j0) [0..<?T]" by simp_all
  from em have t0: "t0 < ?T" and j0: "0 \<le> j0"
    using spec_newly_emerged_props [of ?li "num_leaves s" t0]
    by (auto simp: spec_emergences_iff)
  have before: "\<forall>t<t0. ser ! t = - 1"
    using t0 ser by (simp add: spec_trajectory_at_before)
  have start: "ser ! t0 = j0"
    using t0 ser by (simp add: spec_trajectory_at_start)
  have persist: "ser ! k = - 1" if "t0 \<le> t" "t \<le> k" "k < ?T" "ser ! t = - 1" for t k
  proof -
    from that ser have "spec_trajectory_at ?li t0 j0 t = - 1" by simp
    from spec_sentinel_persists [OF that(1) this that(2)] that(3) ser show ?thesis by simp
  qed
  from persist have after: "\<forall>t k. t0 \<le> t \<and> t \<le> k \<and> k < ?T \<and> ser ! t = - 1 \<longrightarrow> ser ! k = - 1"
    by blast
  from ser have len: "length ser = ?T" by simp
  from len t0 before start j0 after show ?thesis by (intro conjI)
qed

text \<open>
  C7 as stated fails: the identity that emerges at frame 1 has the trajectory \<open>[-1, 1]\<close>,
  the sentinel at time 0 and a leaf index at time 1.
\<close>

theorem trajectory_sentinel_before_emergence:
  "track diagonal_solver emergence_input = Inr emergence_tracked \<and>
   (1, 1, 1, [- 1, 1]) \<in> set (identity_table emergence_tracked) \<and>
   [- 1, 1 :: int] ! 0 = - 1 \<and> [- 1, 1 :: int] ! 1 \<noteq> - 1"
  by (simp add: track_emergence identity_table_emergence)

text \<open>The same identity: the sentinel before frame 1 and leaf index 1 at frame 1.\<close>

theorem trajectory_sentinel_after_emergence_witness:
  "linked emergence_linked \<and> link_series emergence_linked = [] \<and>
   get_series emergence_linked = Inr emergence_tracked \<and>
   (1, 1, 1, [- 1, 1]) \<in> set (identity_table emergence_tracked) \<and>
   length [- 1, 1 :: int] = total_time emergence_linked \<and>
   [- 1, 1 :: int] ! 0 = - 1 \<and> [- 1, 1 :: int] ! 1 = 1"
proof -
  have h1: "linked emergence_linked" by (rule linked_emergence)
  have h2: "link_series emergence_linked = []"
    by (simp add: emergence_linked_def emergence_prepared_def)
  have h3: "get_series emergence_linked = Inr emergence_tracked"
    by (rule get_series_emergence)
  have h4: "(1, 1, 1, [- 1, 1]) \<in> set (identity_table emergence_tracked)"
    by (simp add: identity_table_emergence)
  from trajectory_sentinel_after_emergence [OF h1 h2 h3 h4]
  have h5: "length [- 1, 1 :: int] = total_time emergence_linked"
    and before: "\<forall>t<1. [- 1, 1 :: int] ! t = - 1"
    and h7: "[- 1, 1 :: int] ! 1 = 1"
    by blast+
  from before [rule_format, of 0] have h6: "[- 1, 1 :: int] ! 0 = - 1" by simp
  from h1 h2 h3 h4 h5 h6 h7 show ?thesis by (intro conjI)
qed

lemma linking_weights: "linking lsa t s = Inr s' \<Longrightarrow> weights s' = weights s"
  by (auto simp: linking_def Let_def split: if_splits sum.splits)

text \<open>
  C8 (the code departs from the claim). The claim: after linking, the stored
  \<open>weights[t]\<close> equals the overlap matrix of the pair \<open>(t, t+1)\<close>. \<open>linking\<close> computes the
  matrix in a local variable and stores only the link vector, so \<open>weights[t]\<close> keeps the
  \<open>-inf\<close> entries that \<open>initialize_linking\<close> gave it.
\<close>

theorem linking_never_stores_weights:
  "track diagonal_solver emergence_input = Inr emergence_tracked \<and>
   weights emergence_tracked ! 0 = [[NegInf, NegInf]] \<and>
   link_info emergence_tracked ! 0 = [0] \<and>
   compute_overlaps_masks (masks emergence_tracked ! 0) (masks emergence_tracked ! 1) =
     Inr [[Fin 1, Fin 0]]"
proof -
  have "compute_overlaps_masks frame_a frame_b = Inr [[Fin 1, Fin 0]]" by code_simp
  then show ?thesis
    by (simp add: track_emergence emergence_tracked_def emergence_linked_def
        emergence_prepared_def)
qed

text \<open>
  C9 as stated fails: when the one leaf of frame 0 has no match and the one leaf of frame 1
  has no incoming link, one leaf index of frame 1 is newly emerged and \<open>num_emergence[1]\<close>
  is 0.
\<close>

theorem num_emergence_not_unlinked_count:
  "track diagonal_solver replacement_input = Inr replacement_tracked \<and>
   num_emergence replacement_tracked ! 1 = 0 \<and>
   length (filter (\<lambda>j. j \<notin> set (link_info replacement_tracked ! 0))
                  (available_leaves replacement_tracked ! 1)) = 1"
  by (simp add: track_replacement replacement_tracked_def replacement_prepared_def)

lemma distinct_filter_inj:
  "(\<forall>i<length xs. \<forall>j<length xs. i \<noteq> j \<and> P (xs ! i) \<longrightarrow> xs ! i \<noteq> xs ! j) \<Longrightarrow>
   distinct (filter P xs)"
proof (induction xs)
  case Nil
  then show ?case by simp
next
  case (Cons x xs)
  have "\<forall>i<length xs. \<forall>j<length xs. i \<noteq> j \<and> P (xs ! i) \<longrightarrow> xs ! i \<noteq> xs ! j"
  proof (intro allI impI)
    fix i j assume "i < length xs" "j < length xs" "i \<noteq> j \<and> P (xs ! i)"
    with Cons.prems [rule_format, of "Suc i" "Suc j"] show "xs ! i \<noteq> xs ! j" by simp
  qed
  then have d: "distinct (filter P xs)" by (rule Cons.IH)
  have "x \<notin> set xs" if "P x"
  proof
    assume "x \<in> set xs"
    then obtain j where j: "j < length xs" "xs ! j = x" by (auto simp: in_set_conv_nth)
    with Cons.prems [rule_format, of 0 "Suc j"] that show False by simp
  qed
  with d show ?case by auto
qed

lemma link_count:
  assumes ok: "link_vector_ok n0 n1 link" and inj: "link_vector_inj link"
  shows "int (length (filter (\<lambda>j. j \<notin> set link) (map int [0..<n1]))) -
         int (length (filter (\<lambda>x. x = - 1) link)) = int n1 - int n0"
proof -
  let ?A = "filter (\<lambda>x. x \<noteq> - 1) link"
  let ?B = "filter (\<lambda>j. j \<in> set link) (map int [0..<n1])"
  from inj have dA: "distinct ?A"
    by (intro distinct_filter_inj) (simp add: link_vector_inj_def)
  have dB: "distinct ?B" by (simp add: distinct_map inj_on_def)
  have "set ?A = set ?B"
  proof (rule set_eqI)
    fix x
    show "x \<in> set ?A \<longleftrightarrow> x \<in> set ?B"
    proof
      assume "x \<in> set ?A"
      then have x: "x \<in> set link" "x \<noteq> - 1" by simp_all
      then obtain i where "i < length link" "link ! i = x" by (auto simp: in_set_conv_nth)
      with ok x(2) have "0 \<le> x" "x < int n1" by (auto simp: link_vector_ok_def)
      then have "x \<in> int ` {0..<n1}" by (intro image_eqI [of _ _ "nat x"]) simp_all
      with x(1) show "x \<in> set ?B" by simp
    next
      assume "x \<in> set ?B"
      then show "x \<in> set ?A" by auto
    qed
  qed
  with dA dB have "length ?A = length ?B" by (metis distinct_card)
  moreover have "length ?B + length (filter (\<lambda>j. j \<notin> set link) (map int [0..<n1])) = n1"
    using sum_length_filter_compl [of "\<lambda>j. j \<in> set link" "map int [0..<n1]"] by simp
  moreover have "length ?A + length (filter (\<lambda>x. x = - 1) link) = n0"
    using sum_length_filter_compl [of "\<lambda>x. x \<noteq> - 1" link] ok
    by (simp add: link_vector_ok_def)
  ultimately show ?thesis by linarith
qed

lemma take_one_replicate: "0 < n \<Longrightarrow> take (Suc 0) (replicate n x) = [x]"
  by (cases n) simp_all

text \<open>
  C9, amended. \<open>num_emergence[0]\<close> is the number of leaves of frame 0. For \<open>t > 0\<close>,
  \<open>num_emergence[t]\<close> is \<open>num_leaves[t] - num_leaves[t-1]\<close>, which is the number of leaf
  indices of frame \<open>t\<close> with no incoming link minus the number of leaves of frame \<open>t-1\<close>
  left at the sentinel.
\<close>

theorem num_emergence_net_change:
  assumes ok: "solver_ok lsa" and run: "track lsa (loaded ts ms) = Inr s'"
    and len: "length ms = length ts"
  shows "num_emergence s' ! 0 = int (ninst (ms ! 0)) \<and>
         (\<forall>t. 0 < t \<and> t < length ts \<longrightarrow>
            num_emergence s' ! t = int (ninst (ms ! t)) - int (ninst (ms ! (t - 1))) \<and>
            num_emergence s' ! t =
              int (length (filter (\<lambda>j. j \<notin> set (link_info s' ! (t - 1)))
                                  (available_leaves s' ! t))) -
              int (length (filter (\<lambda>x. x = - 1) (link_info s' ! (t - 1)))))"
proof -
  from track_linked [OF ok run] obtain s where
    "linked s \<and> one_to_one s \<and> link_series s = [] \<and> get_series s = Inr s' \<and>
     masks s = ms \<and> num_leaves s = map ninst ms \<and> total_time s = length ts \<and>
     ms \<noteq> [] \<and>
     weights s = map (\<lambda>i. replicate (map ninst ms ! i)
                            (replicate (map ninst ms ! (i + 1)) NegInf))
                     [0..<length ts - 1] \<and>
     (length ms = length ts \<longrightarrow>
        num_emergence s = take 1 (replicate (length ts) (int (ninst (ms ! 0)))) @
                          np_diff (map ninst ms))" ..
  with len have s: "linked s" "one_to_one s" "link_series s = []" "get_series s = Inr s'"
    "num_leaves s = map ninst ms" "total_time s = length ts"
    and ne: "num_emergence s = take 1 (replicate (length ts) (int (ninst (ms ! 0)))) @
                               np_diff (map ninst ms)"
    by simp_all
  from get_series_table [OF s(1,3,4)]
  have T: "0 < total_time s" and same: "num_emergence s' = num_emergence s"
    "link_info s' = link_info s" "available_leaves s' = available_leaves s"
    by simp_all
  from T s(6) ne have ne': "num_emergence s = int (ninst (ms ! 0)) # np_diff (map ninst ms)"
    by (simp add: take_one_replicate del: take_replicate)
  have first: "num_emergence s' ! 0 = int (ninst (ms ! 0))"
    by (simp add: same ne')
  have later: "num_emergence s' ! t = int (ninst (ms ! t)) - int (ninst (ms ! (t - 1))) \<and>
            num_emergence s' ! t =
              int (length (filter (\<lambda>j. j \<notin> set (link_info s' ! (t - 1)))
                                  (available_leaves s' ! t))) -
              int (length (filter (\<lambda>x. x = - 1) (link_info s' ! (t - 1))))"
    if t: "0 < t" "t < length ts" for t
  proof -
    from t obtain u where u: "t = Suc u" by (cases t) simp_all
    from t u len T s(6) have diff: "num_emergence s' ! t =
        int (ninst (ms ! t)) - int (ninst (ms ! (t - 1)))"
      by (simp add: same ne' np_diff_def)
    from t u s(1,6) have lv: "link_vector_ok (num_leaves s ! (t - 1)) (num_leaves s ! t)
                                   (link_info s ! (t - 1))"
      and av: "available_leaves s ! t = map int [0..<num_leaves s ! t]"
      by (simp_all add: linked_def)
    from t u s(2,6) have li: "link_vector_inj (link_info s ! (t - 1))"
      by (simp add: one_to_one_def)
    from t len s(5) have nl: "num_leaves s ! t = ninst (ms ! t)"
      "num_leaves s ! (t - 1) = ninst (ms ! (t - 1))"
      by simp_all
    from link_count [OF lv li]
    have "int (length (filter (\<lambda>j. j \<notin> set (link_info s ! (t - 1)))
                              (available_leaves s ! t))) -
          int (length (filter (\<lambda>x. x = - 1) (link_info s ! (t - 1)))) =
          int (ninst (ms ! t)) - int (ninst (ms ! (t - 1)))"
      unfolding av nl .
    with diff show ?thesis by (simp only: same)
  qed
  from first later show ?thesis by blast
qed

text \<open>The two frames of \<open>replacement_input\<close>: one leaf each, so the net change is 0.\<close>

theorem num_emergence_net_change_witness:
  "solver_ok diagonal_solver \<and>
   track diagonal_solver (loaded [''t0'', ''t1''] [frame_a, frame_c]) = Inr replacement_tracked \<and>
   length [frame_a, frame_c] = length [''t0'', ''t1''] \<and>
   num_emergence replacement_tracked ! 0 = 1 \<and>
   num_emergence replacement_tracked ! 1 = int (ninst frame_c) - int (ninst frame_a)"
proof -
  have h1: "solver_ok diagonal_solver" by (rule solver_ok_diagonal)
  have h2: "track diagonal_solver (loaded [''t0'', ''t1''] [frame_a, frame_c]) =
            Inr replacement_tracked"
    using track_replacement by (simp add: replacement_input_def)
  have h3: "length [frame_a, frame_c] = length [''t0'', ''t1'']" by simp
  from num_emergence_net_change [OF h1 h2 h3]
  have "num_emergence replacement_tracked ! 0 = int (ninst ([frame_a, frame_c] ! 0)) \<and>
        num_emergence replacement_tracked ! 1 =
          int (ninst ([frame_a, frame_c] ! 1)) - int (ninst ([frame_a, frame_c] ! (1 - 1)))"
    by simp
  then have "num_emergence replacement_tracked ! 0 = 1 \<and>
        num_emergence replacement_tracked ! 1 = int (ninst frame_c) - int (ninst frame_a)"
    by (simp add: frame_a_def)
  with h1 h2 h3 show ?thesis by (intro conjI) simp_all
qed

end
